theory Spec2Isabelle
  imports Main
begin

section \<open>The LS-8 emulator of \<open>cpu.py\<close>\<close>

text \<open>
  The emulator is one Python class, \<open>CPU\<close>, with a memory of 256 cells, eight registers,
  a program counter, a flags register and a stack pointer. Every cell and every register
  holds a Python integer, which is unbounded: nothing in the source truncates a value, so
  the model uses \<^typ>\<open>int\<close> throughout.
\<close>

subsection \<open>Opcodes\<close>

definition HLT :: int where "HLT = 1"     \<comment> \<open>\<open>0b00000001\<close>\<close>
definition PRN :: int where "PRN = 71"    \<comment> \<open>\<open>0b01000111\<close>\<close>
definition LDI :: int where "LDI = 130"   \<comment> \<open>\<open>0b10000010\<close>\<close>
definition MUL :: int where "MUL = 162"   \<comment> \<open>\<open>0b10100010\<close>\<close>
definition ADD :: int where "ADD = 160"   \<comment> \<open>\<open>0b10100000\<close>\<close>
definition PUSH :: int where "PUSH = 69"  \<comment> \<open>\<open>0b01000101\<close>\<close>
definition POP :: int where "POP = 70"    \<comment> \<open>\<open>0b01000110\<close>\<close>
definition CALL :: int where "CALL = 80"  \<comment> \<open>\<open>0b01010000\<close>\<close>
definition IRET :: int where "IRET = 19"  \<comment> \<open>\<open>0b00010011\<close>, defined and never dispatched on\<close>
definition RET :: int where "RET = 17"    \<comment> \<open>\<open>0b00010001\<close>\<close>
definition CMP :: int where "CMP = 167"   \<comment> \<open>\<open>0b10100111\<close>\<close>
definition JMP :: int where "JMP = 84"    \<comment> \<open>\<open>0b01010100\<close>\<close>
definition JEQ :: int where "JEQ = 85"    \<comment> \<open>\<open>0b01010101\<close>\<close>
definition JNE :: int where "JNE = 86"    \<comment> \<open>\<open>0b01010110\<close>\<close>

lemmas opcode_defs =
  HLT_def PRN_def LDI_def MUL_def ADD_def PUSH_def POP_def CALL_def IRET_def RET_def
  CMP_def JMP_def JEQ_def JNE_def

subsection \<open>Python lists indexed by an integer\<close>

text \<open>
  \<open>xs[i]\<close> on a Python list of length \<open>n\<close> accepts \<open>-n \<le> i < n\<close>; a negative index counts
  from the end, and any other index raises \<open>IndexError\<close>. The other exceptions are the
  plain \<open>Exception("Unsupported ALU operation")\<close> of \<open>alu\<close>, and the \<open>ValueError\<close> of
  \<open>print\<close> on an integer with too many digits.
\<close>

datatype error = IndexError | UnsupportedALUOperation | ValueError

definition py_index :: "'a list \<Rightarrow> int \<Rightarrow> nat option" where
  "py_index xs i =
     (let n = int (length xs)
      in if 0 \<le> i \<and> i < n then Some (nat i)
         else if - n \<le> i \<and> i < 0 then Some (nat (i + n))
         else None)"

definition getitem :: "'a list \<Rightarrow> int \<Rightarrow> error + 'a" where
  "getitem xs i = (case py_index xs i of None \<Rightarrow> Inl IndexError | Some k \<Rightarrow> Inr (xs ! k))"

definition setitem :: "'a list \<Rightarrow> int \<Rightarrow> 'a \<Rightarrow> error + 'a list" where
  "setitem xs i v =
     (case py_index xs i of None \<Rightarrow> Inl IndexError | Some k \<Rightarrow> Inr (xs[k := v]))"

subsection \<open>What \<open>print\<close> writes for an integer\<close>

text \<open>
  \<open>print(n)\<close> writes the decimal digits of \<open>n\<close>, after a minus sign if it is negative,
  and then a newline. CPython from 3.11 on refuses to convert an integer of more than
  4300 digits (the sign not counted) and raises \<open>ValueError\<close>; registers are unbounded,
  so the bound can be reached.
\<close>

definition digit_char :: "nat \<Rightarrow> char" where
  "digit_char d = ''0123456789'' ! d"

fun digits :: "nat \<Rightarrow> string" where
  "digits n = (if n < 10 then [digit_char n] else digits (n div 10) @ [digit_char (n mod 10)])"

declare digits.simps [simp del]

definition str_int :: "int \<Rightarrow> string" where
  "str_int i = (if i < 0 then CHR ''-'' # digits (nat (- i)) else digits (nat i))"

definition newline :: char where
  "newline = CHR 0x0A"

definition max_str_digits :: nat where
  "max_str_digits = 4300"

definition print_int :: "int \<Rightarrow> error + string" where
  "print_int i =
     (if max_str_digits < length (digits (nat \<bar>i\<bar>)) then Inl ValueError
      else Inr (str_int i @ [newline]))"

subsection \<open>The machine state\<close>

text \<open>
  The fields of \<open>CPU\<close>, then the two things \<open>run\<close> changes outside the object: the text
  written to standard output, and the local variable \<open>running\<close> of the loop, which \<open>run\<close>
  sets before the first iteration.
\<close>

record cpu =
  ram :: "int list"
  reg :: "int list"
  pc :: int
  fl :: int
  sp :: int
  out :: string
  running :: bool

definition CPU :: cpu where
  "CPU = \<lparr>ram = replicate 256 0, reg = replicate 8 0, pc = 0, fl = 0, sp = 244,
          out = [], running = False\<rparr>"

definition ram_read :: "cpu \<Rightarrow> int \<Rightarrow> error + int" where
  "ram_read s MAR = getitem (ram s) MAR"

definition ram_write :: "cpu \<Rightarrow> int \<Rightarrow> int \<Rightarrow> error + cpu" where
  "ram_write s MAR MDR =
     (case setitem (ram s) MAR MDR of Inl e \<Rightarrow> Inl e | Inr m \<Rightarrow> Inr (s\<lparr>ram := m\<rparr>))"

text \<open>
  \<open>load\<close> writes the values of the program file to consecutive addresses from 0. Reading
  the file and \<open>int(val, 2)\<close> are left outside: the argument is the list of parsed values.
\<close>

fun load_from :: "int \<Rightarrow> int list \<Rightarrow> cpu \<Rightarrow> error + cpu" where
  "load_from address [] s = Inr s"
| "load_from address (v # vs) s =
     (case setitem (ram s) address v of
        Inl e \<Rightarrow> Inl e
      | Inr m \<Rightarrow> load_from (address + 1) vs (s\<lparr>ram := m\<rparr>))"

definition load :: "int list \<Rightarrow> cpu \<Rightarrow> error + cpu" where
  "load vs s = load_from 0 vs s"

subsection \<open>The ALU\<close>

text \<open>
  \<open>self.reg[reg_a] += self.reg[reg_b]\<close> reads both registers and then stores. The three
  tests of the compare read the same two registers again each time; nothing is written
  between them, so the model reads once.
\<close>

definition alu :: "int \<Rightarrow> int \<Rightarrow> int \<Rightarrow> cpu \<Rightarrow> error + cpu" where
  "alu op reg_a reg_b s =
     (if op = ADD then
        (case getitem (reg s) reg_a of Inl e \<Rightarrow> Inl e | Inr x \<Rightarrow>
         case getitem (reg s) reg_b of Inl e \<Rightarrow> Inl e | Inr y \<Rightarrow>
         case setitem (reg s) reg_a (x + y) of Inl e \<Rightarrow> Inl e | Inr r \<Rightarrow> Inr (s\<lparr>reg := r\<rparr>))
      else if op = MUL then
        (case getitem (reg s) reg_a of Inl e \<Rightarrow> Inl e | Inr x \<Rightarrow>
         case getitem (reg s) reg_b of Inl e \<Rightarrow> Inl e | Inr y \<Rightarrow>
         case setitem (reg s) reg_a (x * y) of Inl e \<Rightarrow> Inl e | Inr r \<Rightarrow> Inr (s\<lparr>reg := r\<rparr>))
      else if op = CMP then
        (case getitem (reg s) reg_a of Inl e \<Rightarrow> Inl e | Inr x \<Rightarrow>
         case getitem (reg s) reg_b of Inl e \<Rightarrow> Inl e | Inr y \<Rightarrow>
         if x = y then Inr (s\<lparr>fl := 1\<rparr>)
         else if x < y then Inr (s\<lparr>fl := 4\<rparr>)
         else if x > y then Inr (s\<lparr>fl := 2\<rparr>)
         else Inr s)
      else Inl UnsupportedALUOperation)"

subsection \<open>One iteration of the loop of \<open>run\<close>\<close>

text \<open>
  \<open>dispatch\<close> is the \<open>if\<close>/\<open>elif\<close> chain, in the order of the source. The chain has no final
  \<open>else\<close>: an instruction byte that matches no branch changes nothing.
\<close>

definition dispatch :: "int \<Rightarrow> int \<Rightarrow> int \<Rightarrow> cpu \<Rightarrow> error + cpu" where
  "dispatch IR operand_a operand_b s =
     (if IR = HLT then Inr (s\<lparr>running := False\<rparr>)
      else if IR = JEQ then
        (if fl s = 1 then
           (case getitem (reg s) operand_a of Inl e \<Rightarrow> Inl e | Inr v \<Rightarrow> Inr (s\<lparr>pc := v\<rparr>))
         else Inr (s\<lparr>pc := pc s + 2\<rparr>))
      else if IR = JNE then
        (if fl s \<noteq> 1 then
           (case getitem (reg s) operand_a of Inl e \<Rightarrow> Inl e | Inr v \<Rightarrow> Inr (s\<lparr>pc := v\<rparr>))
         else Inr (s\<lparr>pc := pc s + 2\<rparr>))
      else if IR = JMP then
        (case getitem (reg s) operand_a of Inl e \<Rightarrow> Inl e | Inr v \<Rightarrow> Inr (s\<lparr>pc := v\<rparr>))
      else if IR = CMP then
        (case alu CMP operand_a operand_b s of
           Inl e \<Rightarrow> Inl e | Inr s' \<Rightarrow> Inr (s'\<lparr>pc := pc s' + 3\<rparr>))
      else if IR = CALL then
        (case setitem (ram s) (sp s - 1) (pc s + 2) of Inl e \<Rightarrow> Inl e | Inr m \<Rightarrow>
         case getitem (reg s) operand_a of Inl e \<Rightarrow> Inl e | Inr v \<Rightarrow>
           Inr (s\<lparr>sp := sp s - 1, ram := m, pc := v\<rparr>))
      else if IR = RET then
        (case getitem (ram s) (sp s) of Inl e \<Rightarrow> Inl e | Inr popped \<Rightarrow>
           Inr (s\<lparr>pc := popped, sp := sp s + 1\<rparr>))
      else if IR = PUSH then
        (case getitem (reg s) operand_a of Inl e \<Rightarrow> Inl e | Inr v \<Rightarrow>
         case setitem (ram s) (sp s - 1) v of Inl e \<Rightarrow> Inl e | Inr m \<Rightarrow>
           Inr (s\<lparr>sp := sp s - 1, ram := m, pc := pc s + 2\<rparr>))
      else if IR = POP then
        (case getitem (ram s) (sp s) of Inl e \<Rightarrow> Inl e | Inr popped \<Rightarrow>
         case setitem (reg s) operand_a popped of Inl e \<Rightarrow> Inl e | Inr r \<Rightarrow>
           Inr (s\<lparr>reg := r, sp := sp s + 1, pc := pc s + 2\<rparr>))
      else if IR = LDI then
        (case setitem (reg s) operand_a operand_b of Inl e \<Rightarrow> Inl e | Inr r \<Rightarrow>
           Inr (s\<lparr>reg := r, pc := pc s + 3\<rparr>))
      else if IR = MUL then
        (case alu MUL operand_a operand_b s of
           Inl e \<Rightarrow> Inl e | Inr s' \<Rightarrow> Inr (s'\<lparr>pc := pc s' + 3\<rparr>))
      else if IR = ADD then
        (case alu ADD operand_a operand_b s of
           Inl e \<Rightarrow> Inl e | Inr s' \<Rightarrow> Inr (s'\<lparr>pc := pc s' + 3\<rparr>))
      else if IR = PRN then
        (case getitem (reg s) operand_a of Inl e \<Rightarrow> Inl e | Inr v \<Rightarrow>
         case print_int v of Inl e \<Rightarrow> Inl e | Inr line \<Rightarrow>
           Inr (s\<lparr>out := out s @ line, pc := pc s + 2\<rparr>))
      else Inr s)"

text \<open>
  The three reads at the head of the loop come before the dispatch, for every opcode:
  the two bytes after the instruction byte are read even when the instruction has no
  operand.
\<close>

definition fetch :: "cpu \<Rightarrow> error + int \<times> int \<times> int" where
  "fetch s =
     (case ram_read s (pc s) of Inl e \<Rightarrow> Inl e | Inr IR \<Rightarrow>
      case ram_read s (pc s + 1) of Inl e \<Rightarrow> Inl e | Inr operand_a \<Rightarrow>
      case ram_read s (pc s + 2) of Inl e \<Rightarrow> Inl e | Inr operand_b \<Rightarrow>
        Inr (IR, operand_a, operand_b))"

definition cycle :: "cpu \<Rightarrow> error + cpu" where
  "cycle s =
     (case fetch s of
        Inl e \<Rightarrow> Inl e
      | Inr (IR, operand_a, operand_b) \<Rightarrow> dispatch IR operand_a operand_b s)"

subsection \<open>The loop\<close>

text \<open>
  \<open>while running\<close> may never end, so the loop takes fuel: \<open>None\<close> says that the fuel ran
  out with \<open>running\<close> still true, \<open>Some (Inl e)\<close> that an iteration raised \<open>e\<close>, and
  \<open>Some (Inr s)\<close> that the loop was left in state \<open>s\<close>.
\<close>

fun loop :: "nat \<Rightarrow> cpu \<Rightarrow> (error + cpu) option" where
  "loop 0 s = (if running s then None else Some (Inr s))"
| "loop (Suc n) s =
     (if running s then
        (case cycle s of Inl e \<Rightarrow> Some (Inl e) | Inr s' \<Rightarrow> loop n s')
      else Some (Inr s))"

definition run :: "nat \<Rightarrow> cpu \<Rightarrow> (error + cpu) option" where
  "run fuel s = loop fuel (s\<lparr>running := True\<rparr>)"

text \<open>
  The state after the first \<open>n\<close> iterations (fewer if the loop is left before), and the
  instruction bytes fetched by them, in order.
\<close>

fun iterate :: "nat \<Rightarrow> cpu \<Rightarrow> error + cpu" where
  "iterate 0 s = Inr s"
| "iterate (Suc n) s =
     (if running s then
        (case cycle s of Inl e \<Rightarrow> Inl e | Inr s' \<Rightarrow> iterate n s')
      else Inr s)"

fun fetched :: "nat \<Rightarrow> cpu \<Rightarrow> int list" where
  "fetched 0 s = []"
| "fetched (Suc n) s =
     (if running s then
        (case fetch s of
           Inl e \<Rightarrow> []
         | Inr (IR, operand_a, operand_b) \<Rightarrow>
             IR # (case dispatch IR operand_a operand_b s of
                     Inl e \<Rightarrow> []
                   | Inr s' \<Rightarrow> fetched n s'))
      else [])"

text \<open>
  The class is driven by constructing it, loading a program and running it;
  \<open>emits\<close> is the text on standard output when that \<open>run\<close> returns within the fuel.
\<close>

definition emits :: "nat \<Rightarrow> int list \<Rightarrow> string option" where
  "emits fuel program =
     (case load program CPU of
        Inl e \<Rightarrow> None
      | Inr s \<Rightarrow>
          (case run fuel s of
             Some (Inr s') \<Rightarrow> Some (out s')
           | _ \<Rightarrow> None))"

subsection \<open>Notions used to state the properties\<close>

text \<open>
  The invariants of the object: the two lists are built once, with 256 and 8 elements, and
  are only ever assigned to by index.
\<close>

definition wf :: "cpu \<Rightarrow> bool" where
  "wf s = (length (ram s) = 256 \<and> length (reg s) = 8)"

text \<open>
  The flags byte as the comments of \<open>alu\<close> name its bits: \<open>E\<close> is bit 0, \<open>G\<close> bit 1,
  \<open>L\<close> bit 2. \<open>flags_ok\<close> lists the values the source ever assigns to \<open>fl\<close>.
\<close>

definition E_set :: "cpu \<Rightarrow> bool" where
  "E_set s = bit (fl s) 0"

definition flags_ok :: "cpu \<Rightarrow> bool" where
  "flags_ok s = (fl s = 0 \<or> fl s = 1 \<or> fl s = 2 \<or> fl s = 4)"

text \<open>
  A sequence of instruction bytes is balanced when it decrements the stack pointer
  (\<open>PUSH\<close>, \<open>CALL\<close>) as often as it increments it (\<open>POP\<close>, \<open>RET\<close>).
\<close>

definition balanced :: "int list \<Rightarrow> bool" where
  "balanced ops =
     (length (filter (\<lambda>i. i = PUSH \<or> i = CALL) ops) =
      length (filter (\<lambda>i. i = POP \<or> i = RET) ops))"

text \<open>
  \<open>nested n s base\<close>: through the next \<open>n\<close> iterations from \<open>s\<close>, each iteration starts
  with the stack pointer at most \<open>base\<close> and less than a whole memory below it, so that
  what it pushes lands strictly below the cell \<open>base\<close>.
\<close>

fun nested :: "nat \<Rightarrow> cpu \<Rightarrow> int \<Rightarrow> bool" where
  "nested 0 s base = True"
| "nested (Suc n) s base =
     (if running s then
        base - 254 \<le> sp s \<and> sp s \<le> base \<and>
        (case cycle s of Inl e \<Rightarrow> True | Inr s' \<Rightarrow> nested n s' base)
      else True)"


section \<open>Properties\<close>

subsection \<open>Indexing\<close>

lemma py_index_Some_iff:
  "py_index xs i = Some k \<longleftrightarrow>
     (0 \<le> i \<and> i < int (length xs) \<and> k = nat i) \<or>
     (- int (length xs) \<le> i \<and> i < 0 \<and> k = nat (i + int (length xs)))"
  by (auto simp: py_index_def Let_def)

lemma py_index_None_iff:
  "py_index xs i = None \<longleftrightarrow> i < - int (length xs) \<or> int (length xs) \<le> i"
  by (auto simp: py_index_def Let_def)

lemma py_index_less: "py_index xs i = Some k \<Longrightarrow> k < length xs"
  by (auto simp: py_index_Some_iff)

lemma py_index_update [simp]: "py_index (xs[k := v]) i = py_index xs i"
  by (simp add: py_index_def)

lemma getitem_Inl_iff:
  "getitem xs i = Inl e \<longleftrightarrow> e = IndexError \<and> (i < - int (length xs) \<or> int (length xs) \<le> i)"
  by (auto simp: getitem_def py_index_None_iff py_index_Some_iff split: option.splits)

lemma setitem_Inl_iff:
  "setitem xs i v = Inl e \<longleftrightarrow> e = IndexError \<and> (i < - int (length xs) \<or> int (length xs) \<le> i)"
  by (auto simp: setitem_def py_index_None_iff py_index_Some_iff split: option.splits)

lemma setitem_length: "setitem xs i v = Inr m \<Longrightarrow> length m = length xs"
  by (auto simp: setitem_def split: option.splits)

lemma getitem_setitem_same: "setitem xs i v = Inr m \<Longrightarrow> getitem m i = Inr v"
  by (auto simp: getitem_def setitem_def py_index_less split: option.splits)

text \<open>A store leaves alone every cell less than a whole list above it.\<close>

lemma getitem_setitem_other:
  assumes "setitem xs i v = Inr m" and "0 < j - i" and "j - i < int (length xs)"
  shows "getitem m j = getitem xs j"
proof (cases "py_index xs j")
  case None
  then show ?thesis using assms(1) by (auto simp: getitem_def setitem_def split: option.splits)
next
  case (Some k')
  from assms(1) obtain k where k: "py_index xs i = Some k" and m: "m = xs[k := v]"
    by (auto simp: setitem_def split: option.splits)
  have "k \<noteq> k'" using k Some assms(2,3) by (auto simp: py_index_Some_iff)
  then show ?thesis using Some m by (simp add: getitem_def)
qed

subsection \<open>An instruction byte that is no opcode\<close>

lemma unknown_cycle:
  assumes "fetch s = Inr (IR, a, b)"
    and "IR \<notin> {HLT, LDI, PRN, ADD, MUL, CMP, PUSH, POP, CALL, RET, JMP, JEQ, JNE}"
  shows "cycle s = Inr s"
  using assms by (simp add: cycle_def dispatch_def)

lemma unknown_loop:
  assumes "fetch s = Inr (IR, a, b)"
    and "IR \<notin> {HLT, LDI, PRN, ADD, MUL, CMP, PUSH, POP, CALL, RET, JMP, JEQ, JNE}"
    and "running s"
  shows "loop n s = None"
  using assms by (induction n) (simp_all add: unknown_cycle)

lemma fetch_CPU: "fetch (CPU\<lparr>running := True\<rparr>) = Inr (0, 0, 0)"
  by (simp add: fetch_def ram_read_def getitem_def py_index_def CPU_def)

text \<open>
  C1. The claim is that a byte at \<open>PC\<close> that is none of the thirteen opcodes makes the run
  fail and stop. The loop of the source does the opposite: with no program loaded the
  memory is all zero, the byte 0 at address 0 matches no branch, the iteration leaves the
  state as it found it, and no amount of fuel lets \<open>run\<close> return, with an error or without.
\<close>

theorem unknown_opcode_spins:
  "cycle (CPU\<lparr>running := True\<rparr>) = Inr (CPU\<lparr>running := True\<rparr>) \<and> run n CPU = None"
proof
  show "cycle (CPU\<lparr>running := True\<rparr>) = Inr (CPU\<lparr>running := True\<rparr>)"
    by (rule unknown_cycle [OF fetch_CPU]) (simp add: opcode_defs)
  show "run n CPU = None"
    unfolding run_def by (rule unknown_loop [OF fetch_CPU]) (simp_all add: opcode_defs)
qed

subsection \<open>The compare\<close>

lemma bits_1: "{n. bit (1::int) n} = {0}"
  by (auto simp: bit_1_iff)

lemma bits_2: "{n. bit (2::int) n} = {1}"
  by (auto simp: bit_2_iff)

lemma bits_4: "{n. bit (4::int) n} = {2}"
proof -
  have "bit ((2::int) ^ 2) n \<longleftrightarrow> n = 2" for n
    by (simp only: bit_exp_iff possible_bit_int simp_thms)
  then show ?thesis by simp
qed

text \<open>
  C6. When both register indices are accepted, with \<open>x\<close> and \<open>y\<close> the values read, the
  compare of the ALU stores 1 (Equal) in the flags if \<open>x = y\<close>, else 4 (Less-than) if
  \<open>x < y\<close>, else 2 (Greater-than). The old flags play no part in the result, so a later
  compare overwrites an earlier one, and the new flags have exactly one bit set. The
  \<open>CMP\<close> instruction does this and moves \<open>PC\<close> on by 3.
\<close>

theorem cmp_replaces_flags:
  assumes "getitem (reg s) a = Inr x" and "getitem (reg s) b = Inr y"
  shows "alu CMP a b s = Inr (s\<lparr>fl := (if x = y then 1 else if x < y then 4 else 2)\<rparr>)
       \<and> alu CMP a b (s\<lparr>fl := f\<rparr>) = alu CMP a b s
       \<and> (\<forall>s'. alu CMP a b s = Inr s' \<longrightarrow> card {n. bit (fl s') n} = 1)
       \<and> (fetch s = Inr (CMP, a, b) \<longrightarrow>
            cycle s =
              Inr (s\<lparr>fl := (if x = y then 1 else if x < y then 4 else 2), pc := pc s + 3\<rparr>))"
  using assms by (auto simp: cycle_def dispatch_def alu_def opcode_defs bits_1 bits_2 bits_4)

theorem cmp_replaces_flags_witness:
  "getitem (reg (CPU\<lparr>reg := [3, 5, 0, 0, 0, 0, 0, 0], fl := 1\<rparr>)) 0 = Inr 3
   \<and> getitem (reg (CPU\<lparr>reg := [3, 5, 0, 0, 0, 0, 0, 0], fl := 1\<rparr>)) 1 = Inr 5
   \<and> alu CMP 0 1 (CPU\<lparr>reg := [3, 5, 0, 0, 0, 0, 0, 0], fl := 1\<rparr>)
       = Inr (CPU\<lparr>reg := [3, 5, 0, 0, 0, 0, 0, 0], fl := 4\<rparr>)"
proof -
  have a: "getitem (reg (CPU\<lparr>reg := [3, 5, 0, 0, 0, 0, 0, 0], fl := 1\<rparr>)) 0 = Inr 3"
    by (simp add: getitem_def py_index_def)
  have b: "getitem (reg (CPU\<lparr>reg := [3, 5, 0, 0, 0, 0, 0, 0], fl := 1\<rparr>)) 1 = Inr 5"
    by (simp add: getitem_def py_index_def)
  show ?thesis using a b cmp_replaces_flags [OF a b, of 0] by simp
qed

lemma getitem_cases:
  "getitem xs i =
     (if 0 \<le> i \<and> i < int (length xs) then Inr (xs ! nat i)
      else if - int (length xs) \<le> i \<and> i < 0 then Inr (xs ! nat (i + int (length xs)))
      else Inl IndexError)"
  by (simp add: getitem_def py_index_def Let_def)

lemma setitem_cases:
  "setitem xs i v =
     (if 0 \<le> i \<and> i < int (length xs) then Inr (xs[nat i := v])
      else if - int (length xs) \<le> i \<and> i < 0 then Inr (xs[nat (i + int (length xs)) := v])
      else Inl IndexError)"
  by (simp add: setitem_def py_index_def Let_def)

subsection \<open>Memory addresses\<close>

text \<open>
  C4, as stated, fails: the claim is that every address outside 0..255 makes a read or a
  write fail. Address \<open>-1\<close> is outside, and on a fresh machine \<open>ram_read\<close> returns the
  content of cell 255 for it, and \<open>ram_write\<close> stores into cell 255.
\<close>

theorem ram_negative_address_wraps:
  "ram_read CPU (- 1) = Inr 0
   \<and> (case ram_write CPU (- 1) 7 of Inl e \<Rightarrow> False | Inr s \<Rightarrow> ram_read s 255 = Inr 7)"
  by (simp add: ram_read_def ram_write_def getitem_cases setitem_cases CPU_def)

text \<open>
  C4, amended. With the memory of 256 cells, a read or a write at an address below
  \<open>-256\<close> or above 255 raises \<open>IndexError\<close>; an address from \<open>-256\<close> to \<open>-1\<close> is
  accepted and stands for the cell 256 above it; an address from 0 to 255 reads or
  replaces that cell.
\<close>

theorem ram_access_bounds:
  assumes "length (ram s) = 256"
  shows "(a < - 256 \<or> 255 < a \<longrightarrow>
            ram_read s a = Inl IndexError \<and> ram_write s a v = Inl IndexError)
       \<and> (- 256 \<le> a \<and> a < 0 \<longrightarrow>
            ram_read s a = ram_read s (a + 256) \<and> ram_write s a v = ram_write s (a + 256) v)
       \<and> (0 \<le> a \<and> a \<le> 255 \<longrightarrow>
            ram_read s a = Inr (ram s ! nat a)
            \<and> ram_write s a v = Inr (s\<lparr>ram := (ram s)[nat a := v]\<rparr>))"
  using assms by (auto simp: ram_read_def ram_write_def getitem_cases setitem_cases)

theorem ram_access_bounds_witness:
  "length (ram CPU) = 256
   \<and> ram_read CPU 256 = Inl IndexError \<and> ram_write CPU 256 1 = Inl IndexError
   \<and> ram_read CPU (- 257) = Inl IndexError
   \<and> ram_read CPU (- 256) = ram_read CPU 0
   \<and> ram_read CPU 255 = Inr (ram CPU ! 255)"
proof -
  have l: "length (ram CPU) = 256" by (simp add: CPU_def)
  show ?thesis
    using l ram_access_bounds [OF l, of 256 1] ram_access_bounds [OF l, of "- 257" 1]
      ram_access_bounds [OF l, of "- 256" 1] ram_access_bounds [OF l, of 255 1]
    by simp
qed

subsection \<open>Register indices\<close>

lemma bad_getitem: "length xs = 8 \<Longrightarrow> i < - 8 \<or> 7 < i \<Longrightarrow> getitem xs i = Inl IndexError"
  by (auto simp: getitem_cases)

lemma bad_setitem: "length xs = 8 \<Longrightarrow> i < - 8 \<or> 7 < i \<Longrightarrow> setitem xs i v = Inl IndexError"
  by (auto simp: setitem_cases)

lemma bad_alu_a:
  assumes "length (reg s) = 8" and "i < - 8 \<or> 7 < i" and "op \<in> {ADD, MUL, CMP}"
  shows "alu op i b s = Inl IndexError"
  using assms by (auto simp: alu_def bad_getitem opcode_defs)

lemma bad_alu_b:
  assumes "length (reg s) = 8" and "i < - 8 \<or> 7 < i" and "op \<in> {ADD, MUL, CMP}"
  shows "alu op a i s = Inl IndexError"
  using assms
  by (auto simp: alu_def bad_getitem opcode_defs getitem_Inl_iff split: sum.splits)


lemma dispatch_HLT: "dispatch HLT a b s = Inr (s\<lparr>running := False\<rparr>)"
  by (simp add: dispatch_def)

lemma dispatch_JEQ:
  "dispatch JEQ a b s =
     (if fl s = 1 then
        (case getitem (reg s) a of Inl e \<Rightarrow> Inl e | Inr v \<Rightarrow> Inr (s\<lparr>pc := v\<rparr>))
      else Inr (s\<lparr>pc := pc s + 2\<rparr>))"
  by (simp add: dispatch_def opcode_defs)

lemma dispatch_JNE:
  "dispatch JNE a b s =
     (if fl s \<noteq> 1 then
        (case getitem (reg s) a of Inl e \<Rightarrow> Inl e | Inr v \<Rightarrow> Inr (s\<lparr>pc := v\<rparr>))
      else Inr (s\<lparr>pc := pc s + 2\<rparr>))"
  by (simp add: dispatch_def opcode_defs)

lemma dispatch_JMP:
  "dispatch JMP a b s =
     (case getitem (reg s) a of Inl e \<Rightarrow> Inl e | Inr v \<Rightarrow> Inr (s\<lparr>pc := v\<rparr>))"
  by (simp add: dispatch_def opcode_defs)

lemma dispatch_CMP:
  "dispatch CMP a b s =
     (case alu CMP a b s of Inl e \<Rightarrow> Inl e | Inr s' \<Rightarrow> Inr (s'\<lparr>pc := pc s' + 3\<rparr>))"
  by (simp add: dispatch_def opcode_defs)

lemma dispatch_CALL:
  "dispatch CALL a b s =
     (case setitem (ram s) (sp s - 1) (pc s + 2) of Inl e \<Rightarrow> Inl e | Inr m \<Rightarrow>
      case getitem (reg s) a of Inl e \<Rightarrow> Inl e | Inr v \<Rightarrow>
        Inr (s\<lparr>sp := sp s - 1, ram := m, pc := v\<rparr>))"
  by (simp add: dispatch_def opcode_defs)

lemma dispatch_RET:
  "dispatch RET a b s =
     (case getitem (ram s) (sp s) of Inl e \<Rightarrow> Inl e | Inr popped \<Rightarrow>
        Inr (s\<lparr>pc := popped, sp := sp s + 1\<rparr>))"
  by (simp add: dispatch_def opcode_defs)

lemma dispatch_PUSH:
  "dispatch PUSH a b s =
     (case getitem (reg s) a of Inl e \<Rightarrow> Inl e | Inr v \<Rightarrow>
      case setitem (ram s) (sp s - 1) v of Inl e \<Rightarrow> Inl e | Inr m \<Rightarrow>
        Inr (s\<lparr>sp := sp s - 1, ram := m, pc := pc s + 2\<rparr>))"
  by (simp add: dispatch_def opcode_defs)

lemma dispatch_POP:
  "dispatch POP a b s =
     (case getitem (ram s) (sp s) of Inl e \<Rightarrow> Inl e | Inr popped \<Rightarrow>
      case setitem (reg s) a popped of Inl e \<Rightarrow> Inl e | Inr r \<Rightarrow>
        Inr (s\<lparr>reg := r, sp := sp s + 1, pc := pc s + 2\<rparr>))"
  by (simp add: dispatch_def opcode_defs)

lemma dispatch_LDI:
  "dispatch LDI a b s =
     (case setitem (reg s) a b of Inl e \<Rightarrow> Inl e | Inr r \<Rightarrow>
        Inr (s\<lparr>reg := r, pc := pc s + 3\<rparr>))"
  by (simp add: dispatch_def opcode_defs)

lemma dispatch_MUL:
  "dispatch MUL a b s =
     (case alu MUL a b s of Inl e \<Rightarrow> Inl e | Inr s' \<Rightarrow> Inr (s'\<lparr>pc := pc s' + 3\<rparr>))"
  by (simp add: dispatch_def opcode_defs)

lemma dispatch_ADD:
  "dispatch ADD a b s =
     (case alu ADD a b s of Inl e \<Rightarrow> Inl e | Inr s' \<Rightarrow> Inr (s'\<lparr>pc := pc s' + 3\<rparr>))"
  by (simp add: dispatch_def opcode_defs)

lemma dispatch_PRN:
  "dispatch PRN a b s =
     (case getitem (reg s) a of Inl e \<Rightarrow> Inl e | Inr v \<Rightarrow>
      case print_int v of Inl e \<Rightarrow> Inl e | Inr line \<Rightarrow>
        Inr (s\<lparr>out := out s @ line, pc := pc s + 2\<rparr>))"
  by (simp add: dispatch_def opcode_defs)

lemma dispatch_other:
  "IR \<notin> {HLT, LDI, PRN, ADD, MUL, CMP, PUSH, POP, CALL, RET, JMP, JEQ, JNE}
   \<Longrightarrow> dispatch IR a b s = Inr s"
  by (simp add: dispatch_def)

lemmas dispatch_simps =
  dispatch_HLT dispatch_JEQ dispatch_JNE dispatch_JMP dispatch_CMP dispatch_CALL dispatch_RET
  dispatch_PUSH dispatch_POP dispatch_LDI dispatch_MUL dispatch_ADD dispatch_PRN

lemma bad_reg_a:
  assumes "length (reg s) = 8" and "i < - 8 \<or> 7 < i"
    and "IR \<in> {LDI, PRN, ADD, MUL, CMP, PUSH, POP, CALL, JMP}"
  shows "dispatch IR i b s = Inl IndexError"
proof -
  have g: "getitem (reg s) i = Inl IndexError" and w: "\<And>v. setitem (reg s) i v = Inl IndexError"
    using assms(1,2) by (simp_all add: bad_getitem bad_setitem)
  have alu: "\<And>op. op \<in> {ADD, MUL, CMP} \<Longrightarrow> alu op i b s = Inl IndexError"
    using assms(1,2) by (rule bad_alu_a)
  consider "IR = LDI" | "IR = PRN" | "IR = ADD" | "IR = MUL" | "IR = CMP" | "IR = PUSH"
    | "IR = POP" | "IR = CALL" | "IR = JMP"
    using assms(3) by blast
  then show ?thesis
  proof cases
    case 7
    then show ?thesis
      by (simp add: dispatch_POP w getitem_Inl_iff split: sum.splits)
  next
    case 8
    then show ?thesis
      by (simp add: dispatch_CALL g setitem_Inl_iff split: sum.splits)
  qed (simp_all add: dispatch_simps g w alu)
qed

lemma bad_reg_b:
  assumes "length (reg s) = 8" and "i < - 8 \<or> 7 < i" and "IR \<in> {ADD, MUL, CMP}"
  shows "dispatch IR a i s = Inl IndexError"
proof -
  have "alu IR a i s = Inl IndexError" using assms by (rule bad_alu_b)
  then show ?thesis using assms(3) by (auto simp: dispatch_simps)
qed

lemma bad_reg_jump:
  assumes "length (reg s) = 8" and "i < - 8 \<or> 7 < i"
  shows "fl s = 1 \<longrightarrow> dispatch JEQ i b s = Inl IndexError"
    and "fl s \<noteq> 1 \<longrightarrow> dispatch JNE i b s = Inl IndexError"
  using assms by (simp_all add: dispatch_simps bad_getitem)

lemma reg_CPU: "reg CPU = [0, 0, 0, 0, 0, 0, 0, 0]"
  by (simp add: CPU_def eval_nat_numeral)

text \<open>
  C5, as stated, fails: the claim is that every register index outside 0..7 makes the
  access fail. Index \<open>-1\<close> is outside; reading it gives register 7, and \<open>LDI\<close> with the
  operand \<open>-1\<close> loads register 7 and goes on.
\<close>

theorem register_negative_index_wraps:
  "getitem (reg CPU) (- 1) = Inr 0
   \<and> dispatch LDI (- 1) 9 CPU = Inr (CPU\<lparr>reg := [0, 0, 0, 0, 0, 0, 0, 9], pc := 3\<rparr>)"
proof -
  have "pc CPU = 0" by (simp add: CPU_def)
  then show ?thesis
    by (simp add: dispatch_LDI getitem_cases setitem_cases reg_CPU)
qed

text \<open>
  C5, amended. With the eight registers, an index below \<open>-8\<close> or above 7 raises
  \<open>IndexError\<close> on a read and on a write, and so does every instruction that uses such an
  operand as a register selector: the first operand of \<open>LDI\<close>, \<open>PRN\<close>, \<open>ADD\<close>, \<open>MUL\<close>,
  \<open>CMP\<close>, \<open>PUSH\<close>, \<open>POP\<close>, \<open>CALL\<close>, \<open>JMP\<close>, of \<open>JEQ\<close> when the flags are 1 and of
  \<open>JNE\<close> when they are not, and the second operand of \<open>ADD\<close>, \<open>MUL\<close>, \<open>CMP\<close>. An index
  from \<open>-8\<close> to \<open>-1\<close> is accepted and selects the register 8 above it; an index from 0
  to 7 selects that register.
\<close>

theorem register_index_bounds:
  assumes "length (reg s) = 8"
  shows "(i < - 8 \<or> 7 < i \<longrightarrow>
            getitem (reg s) i = Inl IndexError \<and> setitem (reg s) i v = Inl IndexError
            \<and> (\<forall>IR \<in> {LDI, PRN, ADD, MUL, CMP, PUSH, POP, CALL, JMP}.
                  dispatch IR i b s = Inl IndexError)
            \<and> (\<forall>IR \<in> {ADD, MUL, CMP}. dispatch IR a i s = Inl IndexError)
            \<and> (fl s = 1 \<longrightarrow> dispatch JEQ i b s = Inl IndexError)
            \<and> (fl s \<noteq> 1 \<longrightarrow> dispatch JNE i b s = Inl IndexError))
       \<and> (- 8 \<le> i \<and> i < 0 \<longrightarrow>
            getitem (reg s) i = getitem (reg s) (i + 8)
            \<and> setitem (reg s) i v = setitem (reg s) (i + 8) v)
       \<and> (0 \<le> i \<and> i \<le> 7 \<longrightarrow>
            getitem (reg s) i = Inr (reg s ! nat i)
            \<and> setitem (reg s) i v = Inr ((reg s)[nat i := v]))"
proof -
  have 1: "i < - 8 \<or> 7 < i \<Longrightarrow>
      getitem (reg s) i = Inl IndexError \<and> setitem (reg s) i v = Inl IndexError"
    using assms by (simp add: bad_getitem bad_setitem)
  have 2: "i < - 8 \<or> 7 < i \<Longrightarrow>
      \<forall>IR \<in> {LDI, PRN, ADD, MUL, CMP, PUSH, POP, CALL, JMP}. dispatch IR i b s = Inl IndexError"
    using assms bad_reg_a by blast
  have 3: "i < - 8 \<or> 7 < i \<Longrightarrow> \<forall>IR \<in> {ADD, MUL, CMP}. dispatch IR a i s = Inl IndexError"
    using assms bad_reg_b by blast
  have 4: "i < - 8 \<or> 7 < i \<Longrightarrow>
      (fl s = 1 \<longrightarrow> dispatch JEQ i b s = Inl IndexError)
      \<and> (fl s \<noteq> 1 \<longrightarrow> dispatch JNE i b s = Inl IndexError)"
    using assms bad_reg_jump by blast
  have 5: "- 8 \<le> i \<and> i < 0 \<Longrightarrow>
      getitem (reg s) i = getitem (reg s) (i + 8)
      \<and> setitem (reg s) i v = setitem (reg s) (i + 8) v"
    using assms by (simp add: getitem_cases setitem_cases)
  have 6: "0 \<le> i \<and> i \<le> 7 \<Longrightarrow>
      getitem (reg s) i = Inr (reg s ! nat i)
      \<and> setitem (reg s) i v = Inr ((reg s)[nat i := v])"
    using assms by (simp add: getitem_cases setitem_cases)
  from 1 2 3 4 5 6 show ?thesis by blast
qed

theorem register_index_bounds_witness:
  "length (reg CPU) = 8
   \<and> getitem (reg CPU) 8 = Inl IndexError \<and> setitem (reg CPU) 8 1 = Inl IndexError
   \<and> dispatch LDI 8 5 CPU = Inl IndexError
   \<and> dispatch ADD 0 8 CPU = Inl IndexError
   \<and> getitem (reg CPU) (- 8) = getitem (reg CPU) 0
   \<and> getitem (reg CPU) 7 = Inr (reg CPU ! 7)"
proof -
  have l: "length (reg CPU) = 8" by (simp add: CPU_def)
  show ?thesis
    using l register_index_bounds [OF l, of 8 1 5 0]
      register_index_bounds [OF l, of "- 8" 1 5 0] register_index_bounds [OF l, of 7 1 5 0]
    by simp
qed


subsection \<open>Loading and running the two arithmetic programs\<close>

lemma CPU_fields:
  "ram CPU = replicate 256 0" "pc CPU = 0" "fl CPU = 0" "sp CPU = 244" "out CPU = []"
  "running CPU = False"
  by (simp_all add: CPU_def)

lemma load_from_ok:
  "0 \<le> a \<Longrightarrow> nat a + length vs \<le> length (ram s) \<Longrightarrow>
   load_from a vs s =
     Inr (s\<lparr>ram := take (nat a) (ram s) @ vs @ drop (nat a + length vs) (ram s)\<rparr>)"
proof (induction vs arbitrary: a s)
  case Nil
  then show ?case by simp
next
  case (Cons v vs)
  let ?m = "(ram s)[nat a := v]"
  have lt: "nat a < length (ram s)" using Cons.prems by simp
  have set: "setitem (ram s) a v = Inr ?m"
    using Cons.prems by (simp add: setitem_cases)
  have "load_from (a + 1) vs (s\<lparr>ram := ?m\<rparr>) =
      Inr (s\<lparr>ram := ?m, ram := take (nat (a + 1)) ?m @ vs @ drop (nat (a + 1) + length vs) ?m\<rparr>)"
    using Cons.prems Cons.IH [of "a + 1" "s\<lparr>ram := ?m\<rparr>"] by simp
  moreover have "nat (a + 1) = Suc (nat a)" using Cons.prems by simp
  moreover have "take (Suc (nat a)) ?m = take (nat a) (ram s) @ [v]"
    using lt by (simp add: take_Suc_conv_app_nth)
  ultimately show ?case using set by simp
qed

lemma load_CPU:
  "length vs \<le> 256 \<Longrightarrow> load vs CPU = Inr (CPU\<lparr>ram := vs @ replicate (256 - length vs) 0\<rparr>)"
  by (simp add: load_def load_from_ok CPU_fields)

lemma loop_step: "running s \<Longrightarrow> cycle s = Inr s' \<Longrightarrow> loop (Suc n) s = loop n s'"
  by simp

lemma loop_done: "\<not> running s \<Longrightarrow> loop n s = Some (Inr s)"
  by (cases n) simp_all

lemma loop_more: "loop n s = Some r \<Longrightarrow> loop (n + k) s = Some r"
proof (induction n arbitrary: s)
  case 0
  then show ?case by (simp add: loop_done split: if_splits)
next
  case (Suc n)
  then show ?case by (auto split: if_splits sum.splits)
qed

lemma alu_ADD:
  "alu ADD a b s =
     (case getitem (reg s) a of Inl e \<Rightarrow> Inl e | Inr x \<Rightarrow>
      case getitem (reg s) b of Inl e \<Rightarrow> Inl e | Inr y \<Rightarrow>
      case setitem (reg s) a (x + y) of Inl e \<Rightarrow> Inl e | Inr r \<Rightarrow> Inr (s\<lparr>reg := r\<rparr>))"
  by (simp add: alu_def)

lemma alu_MUL:
  "alu MUL a b s =
     (case getitem (reg s) a of Inl e \<Rightarrow> Inl e | Inr x \<Rightarrow>
      case getitem (reg s) b of Inl e \<Rightarrow> Inl e | Inr y \<Rightarrow>
      case setitem (reg s) a (x * y) of Inl e \<Rightarrow> Inl e | Inr r \<Rightarrow> Inr (s\<lparr>reg := r\<rparr>))"
  by (simp add: alu_def opcode_defs)

lemma length_digits: "n < 10 ^ k \<Longrightarrow> 0 < k \<Longrightarrow> length (digits n) \<le> k"
proof (induction k arbitrary: n)
  case 0
  then show ?case by simp
next
  case (Suc k)
  show ?case
  proof (cases "n < 10")
    case True
    then show ?thesis by (simp add: digits.simps)
  next
    case False
    with Suc.prems have k: "0 < k" by (cases k) simp_all
    from Suc.prems have "n div 10 < 10 ^ k" by (simp add: less_mult_imp_div_less mult.commute)
    then have "length (digits (n div 10)) \<le> k" using k by (rule Suc.IH)
    then show ?thesis using False by (subst digits.simps) simp
  qed
qed

lemma print_int_small:
  assumes "\<bar>i\<bar> < 100000"
  shows "print_int i = Inr (str_int i @ [newline])"
proof -
  have "nat \<bar>i\<bar> < 10 ^ 5" using assms by simp
  then have "length (digits (nat \<bar>i\<bar>)) \<le> 5" by (rule length_digits) simp
  then show ?thesis by (simp add: print_int_def max_str_digits_def)
qed

lemma alu_program_run:
  fixes x y op :: int
  assumes op: "op = ADD \<or> op = MUL"
    and pr: "print_int (if op = ADD then x + y else x * y) =
      Inr (str_int (if op = ADD then x + y else x * y) @ [newline])"
  defines "P \<equiv> [LDI, 0, x, LDI, 1, y, op, 0, 1, PRN, 0, HLT]"
  defines "z \<equiv> (if op = ADD then x + y else x * y)"
  shows "\<exists>s'. load P CPU = Inr (CPU\<lparr>ram := P @ replicate 244 0\<rparr>)
     \<and> run (5 + k) (CPU\<lparr>ram := P @ replicate 244 0\<rparr>) = Some (Inr s')
     \<and> out s' = str_int z @ [newline] \<and> getitem (reg s') 0 = Inr z"
proof -
  let ?R = "P @ replicate 244 0"
  let ?s0 = "CPU\<lparr>ram := ?R, running := True\<rparr>"
  let ?s1 = "?s0\<lparr>reg := [x, 0, 0, 0, 0, 0, 0, 0], pc := 3\<rparr>"
  let ?s2 = "?s0\<lparr>reg := [x, y, 0, 0, 0, 0, 0, 0], pc := 6\<rparr>"
  let ?s3 = "?s0\<lparr>reg := [z, y, 0, 0, 0, 0, 0, 0], pc := 9\<rparr>"
  let ?s4 = "?s0\<lparr>reg := [z, y, 0, 0, 0, 0, 0, 0], pc := 11, out := str_int z @ [newline]\<rparr>"
  let ?s5 = "?s4\<lparr>running := False\<rparr>"
  have ld: "load P CPU = Inr (CPU\<lparr>ram := ?R\<rparr>)"
    by (simp add: load_CPU P_def)
  have len: "length ?R = 256" by (simp add: P_def)
  have rd: "getitem ?R 0 = Inr LDI" "getitem ?R 1 = Inr 0" "getitem ?R 2 = Inr x"
    "getitem ?R 3 = Inr LDI" "getitem ?R 4 = Inr 1" "getitem ?R 5 = Inr y"
    "getitem ?R 6 = Inr op" "getitem ?R 7 = Inr 0" "getitem ?R 8 = Inr 1"
    "getitem ?R 9 = Inr PRN" "getitem ?R 10 = Inr 0" "getitem ?R 11 = Inr HLT"
    "getitem ?R 12 = Inr 0" "getitem ?R 13 = Inr 0"
    by (simp_all add: getitem_cases P_def nth_append)
  have f0: "fetch ?s0 = Inr (LDI, 0, x)"
    by (simp add: fetch_def ram_read_def rd CPU_fields)
  have f1: "fetch ?s1 = Inr (LDI, 1, y)"
    by (simp add: fetch_def ram_read_def rd)
  have f2: "fetch ?s2 = Inr (op, 0, 1)"
    by (simp add: fetch_def ram_read_def rd)
  have f3: "fetch ?s3 = Inr (PRN, 0, HLT)"
    by (simp add: fetch_def ram_read_def rd)
  have f4: "fetch ?s4 = Inr (HLT, 0, 0)"
    by (simp add: fetch_def ram_read_def rd)
  have c0: "cycle ?s0 = Inr ?s1"
    by (simp add: cycle_def f0 dispatch_LDI setitem_cases reg_CPU CPU_fields)
  have c1: "cycle ?s1 = Inr ?s2"
    by (simp add: cycle_def f1 dispatch_LDI setitem_cases)
  have c2: "cycle ?s2 = Inr ?s3"
  proof (cases "op = ADD")
    case True
    then show ?thesis
      by (simp add: cycle_def f2 [simplified True] dispatch_ADD alu_ADD getitem_cases
          setitem_cases z_def)
  next
    case False
    then have m: "op = MUL" using op by simp
    have "MUL \<noteq> ADD" by (simp add: opcode_defs)
    then show ?thesis
      by (simp add: cycle_def f2 [simplified m] m dispatch_MUL alu_MUL getitem_cases
          setitem_cases z_def)
  qed
  have c3: "cycle ?s3 = Inr ?s4"
  proof -
    have "print_int z = Inr (str_int z @ [newline])" using pr by (simp only: z_def)
    then show ?thesis
      by (simp add: cycle_def f3 dispatch_PRN getitem_cases CPU_fields)
  qed
  have c4: "cycle ?s4 = Inr ?s5"
    by (simp add: cycle_def f4 dispatch_HLT)
  have five: "(5::nat) = Suc (Suc (Suc (Suc (Suc 0))))" by simp
  have "loop (Suc (Suc (Suc (Suc (Suc 0))))) ?s0 = Some (Inr ?s5)"
    by (simp add: c0 c1 c2 c3 c4)
  then have "loop 5 ?s0 = Some (Inr ?s5)" by (simp only: five)
  then have "run (5 + k) (CPU\<lparr>ram := ?R\<rparr>) = Some (Inr ?s5)"
    unfolding run_def by (rule loop_more)
  moreover have "out ?s5 = str_int z @ [newline]" "getitem (reg ?s5) 0 = Inr z"
    by (simp_all add: getitem_cases)
  ultimately show ?thesis using ld by blast
qed

lemma alu_ADD_value:
  assumes "py_index (reg s) a = Some i" and "py_index (reg s) b = Some j"
  shows "alu ADD a b s = Inr (s\<lparr>reg := (reg s)[i := reg s ! i + reg s ! j]\<rparr>)"
  using assms by (simp add: alu_ADD getitem_def setitem_def)

lemma alu_MUL_value:
  assumes "py_index (reg s) a = Some i" and "py_index (reg s) b = Some j"
  shows "alu MUL a b s = Inr (s\<lparr>reg := (reg s)[i := reg s ! i * reg s ! j]\<rparr>)"
  using assms by (simp add: alu_MUL getitem_def setitem_def)

lemma emits_alu_program:
  fixes x y op :: int
  assumes "op = ADD \<or> op = MUL"
    and "0 \<le> x" and "x \<le> 255" and "0 \<le> y" and "y \<le> 255"
  shows "emits (5 + k) [LDI, 0, x, LDI, 1, y, op, 0, 1, PRN, 0, HLT] =
    Some (str_int (if op = ADD then x + y else x * y) @ [newline])"
proof -
  let ?z = "if op = ADD then x + y else x * y"
  have "0 \<le> x * y" using assms(2,4) by simp
  moreover have "x * y \<le> 255 * 255" using assms(2-5) by (intro mult_mono) simp_all
  ultimately have "\<bar>?z\<bar> < 100000" using assms(2-5) by simp
  then have pr: "print_int ?z = Inr (str_int ?z @ [newline])" by (rule print_int_small)
  from alu_program_run [OF assms(1) pr, of k] obtain s' where
    "load [LDI, 0, x, LDI, 1, y, op, 0, 1, PRN, 0, HLT] CPU =
       Inr (CPU\<lparr>ram := [LDI, 0, x, LDI, 1, y, op, 0, 1, PRN, 0, HLT] @ replicate 244 0\<rparr>)"
    "run (5 + k) (CPU\<lparr>ram := [LDI, 0, x, LDI, 1, y, op, 0, 1, PRN, 0, HLT] @ replicate 244 0\<rparr>)
       = Some (Inr s')"
    "out s' = str_int ?z @ [newline]"
    by blast
  then show ?thesis by (simp add: emits_def)
qed

text \<open>
  C2, amended. For all 8-bit values \<open>x\<close> and \<open>y\<close>, the program
  \<open>LDI R0,x; LDI R1,y; ADD R0,R1; PRN R0; HLT\<close> returns within five iterations and has
  written \<open>x + y\<close> in decimal and a newline, with no truncation; and \<open>ADD\<close> on two
  accepted register indices stores the sum of the two registers, as it is, in the first.
\<close>

theorem add_program_emits_sum:
  "(0 \<le> x \<and> x \<le> 255 \<and> 0 \<le> y \<and> y \<le> 255 \<longrightarrow>
      emits (5 + k) [LDI, 0, x, LDI, 1, y, ADD, 0, 1, PRN, 0, HLT]
        = Some (str_int (x + y) @ [newline]))
   \<and> (py_index (reg s) a = Some i \<and> py_index (reg s) b = Some j \<longrightarrow>
        alu ADD a b s = Inr (s\<lparr>reg := (reg s)[i := reg s ! i + reg s ! j]\<rparr>))"
  using emits_alu_program [of ADD x y k] by (simp add: alu_ADD_value)

theorem add_program_emits_sum_witness:
  "(0::int) \<le> 3 \<and> (3::int) \<le> 255 \<and> (0::int) \<le> 4 \<and> (4::int) \<le> 255
   \<and> py_index (reg CPU) 0 = Some 0 \<and> py_index (reg CPU) 1 = Some 1
   \<and> emits 5 [LDI, 0, 3, LDI, 1, 4, ADD, 0, 1, PRN, 0, HLT] = Some (''7'' @ [newline])
   \<and> alu ADD 0 1 CPU = Inr (CPU\<lparr>reg := (reg CPU)[0 := reg CPU ! 0 + reg CPU ! 1]\<rparr>)"
proof -
  have i: "py_index (reg CPU) 0 = Some 0" "py_index (reg CPU) 1 = Some 1"
    by (simp_all add: py_index_def reg_CPU)
  have "str_int (3 + 4) = ''7''"
    by (simp add: str_int_def digits.simps digit_char_def)
  then show ?thesis
    using i add_program_emits_sum [where x = 3 and y = 4 and k = 0 and s = CPU and a = 0
        and b = 1 and i = 0 and j = 1]
    by simp
qed

text \<open>
  C2, as stated, fails: for \<open>x = 200\<close> and \<open>y = 100\<close> the claim is the output of
  \<open>(200 + 100) mod 256\<close>, which is \<open>44\<close>; the program writes \<open>300\<close>.
\<close>

theorem add_program_not_truncated:
  "emits 5 [LDI, 0, 200, LDI, 1, 100, ADD, 0, 1, PRN, 0, HLT] = Some (''300'' @ [newline])
   \<and> str_int ((200 + 100) mod 256) @ [newline] = ''44'' @ [newline]"
proof -
  have "str_int (200 + 100) = ''300''" "str_int ((200 + 100) mod 256) = ''44''"
    by (simp_all add: str_int_def digits.simps digit_char_def)
  then show ?thesis
    using emits_alu_program [of ADD 200 100 0] by simp
qed

text \<open>
  C3, amended. For all 8-bit values \<open>x\<close> and \<open>y\<close>, the program
  \<open>LDI R0,x; LDI R1,y; MUL R0,R1; PRN R0; HLT\<close> returns within five iterations and has
  written \<open>x * y\<close> in decimal and a newline, with no truncation; and \<open>MUL\<close> on two
  accepted register indices stores the product of the two registers, as it is, in the
  first.
\<close>

theorem mul_program_emits_product:
  "(0 \<le> x \<and> x \<le> 255 \<and> 0 \<le> y \<and> y \<le> 255 \<longrightarrow>
      emits (5 + k) [LDI, 0, x, LDI, 1, y, MUL, 0, 1, PRN, 0, HLT]
        = Some (str_int (x * y) @ [newline]))
   \<and> (py_index (reg s) a = Some i \<and> py_index (reg s) b = Some j \<longrightarrow>
        alu MUL a b s = Inr (s\<lparr>reg := (reg s)[i := reg s ! i * reg s ! j]\<rparr>))"
proof -
  have "MUL \<noteq> ADD" by (simp add: opcode_defs)
  then show ?thesis
    using emits_alu_program [of MUL x y k] by (simp add: alu_MUL_value)
qed

theorem mul_program_emits_product_witness:
  "(0::int) \<le> 8 \<and> (8::int) \<le> 255 \<and> (0::int) \<le> 9 \<and> (9::int) \<le> 255
   \<and> py_index (reg CPU) 0 = Some 0 \<and> py_index (reg CPU) 1 = Some 1
   \<and> emits 5 [LDI, 0, 8, LDI, 1, 9, MUL, 0, 1, PRN, 0, HLT] = Some (''72'' @ [newline])
   \<and> alu MUL 0 1 CPU = Inr (CPU\<lparr>reg := (reg CPU)[0 := reg CPU ! 0 * reg CPU ! 1]\<rparr>)"
proof -
  have i: "py_index (reg CPU) 0 = Some 0" "py_index (reg CPU) 1 = Some 1"
    by (simp_all add: py_index_def reg_CPU)
  have "str_int (8 * 9) = ''72''"
    by (simp add: str_int_def digits.simps digit_char_def)
  then show ?thesis
    using i mul_program_emits_product [where x = 8 and y = 9 and k = 0 and s = CPU and a = 0
        and b = 1 and i = 0 and j = 1]
    by simp
qed

text \<open>
  C3, as stated, fails: for \<open>x = 200\<close> and \<open>y = 100\<close> the claim is the output of
  \<open>(200 * 100) mod 256\<close>, which is \<open>32\<close>; the program writes \<open>20000\<close>.
\<close>

theorem mul_program_not_truncated:
  "emits 5 [LDI, 0, 200, LDI, 1, 100, MUL, 0, 1, PRN, 0, HLT] = Some (''20000'' @ [newline])
   \<and> str_int ((200 * 100) mod 256) @ [newline] = ''32'' @ [newline]"
proof -
  have "MUL \<noteq> ADD" by (simp add: opcode_defs)
  moreover have "str_int (200 * 100) = ''20000''" "str_int ((200 * 100) mod 256) = ''32''"
    by (simp_all add: str_int_def digits.simps digit_char_def)
  ultimately show ?thesis
    using emits_alu_program [of MUL 200 100 0] by simp
qed

subsection \<open>Flags and conditional jumps\<close>

lemma opcode_cases:
  obtains "IR = HLT" | "IR = JEQ" | "IR = JNE" | "IR = JMP" | "IR = CMP" | "IR = CALL"
  | "IR = RET" | "IR = PUSH" | "IR = POP" | "IR = LDI" | "IR = MUL" | "IR = ADD" | "IR = PRN"
  | "IR \<notin> {HLT, LDI, PRN, ADD, MUL, CMP, PUSH, POP, CALL, RET, JMP, JEQ, JNE}"
  by blast

lemma alu_CMP:
  "alu CMP a b s =
     (case getitem (reg s) a of Inl e \<Rightarrow> Inl e | Inr x \<Rightarrow>
      case getitem (reg s) b of Inl e \<Rightarrow> Inl e | Inr y \<Rightarrow>
        Inr (s\<lparr>fl := (if x = y then 1 else if x < y then 4 else 2)\<rparr>))"
  by (auto simp: alu_def opcode_defs split: sum.splits)

lemma cycle_eq: "fetch s = Inr (IR, a, b) \<Longrightarrow> cycle s = dispatch IR a b s"
  by (simp add: cycle_def)

lemma E_set_iff: "flags_ok s \<Longrightarrow> E_set s \<longleftrightarrow> fl s = 1"
  by (auto simp: flags_ok_def E_set_def)

text \<open>What an instruction other than the compare leaves alone.\<close>

lemma dispatch_fl:
  assumes "dispatch IR a b s = Inr s'" and "IR \<noteq> CMP"
  shows "fl s' = fl s"
  using assms
  by (cases IR rule: opcode_cases)
    (auto simp: dispatch_simps dispatch_other alu_ADD alu_MUL split: sum.splits if_splits)

lemma dispatch_flags_ok:
  assumes "dispatch IR a b s = Inr s'" and "flags_ok s"
  shows "flags_ok s'"
proof (cases "IR = CMP")
  case True
  then show ?thesis using assms(1)
    by (auto simp: dispatch_CMP alu_CMP flags_ok_def split: sum.splits)
next
  case False
  then show ?thesis using assms dispatch_fl [OF assms(1)] by (simp add: flags_ok_def)
qed

lemma load_from_fl: "load_from a vs s = Inr s' \<Longrightarrow> fl s' = fl s"
  by (induction vs arbitrary: a s) (auto split: sum.splits)

lemma iterate_fl:
  "iterate n s = Inr s' \<Longrightarrow> CMP \<notin> set (fetched n s) \<Longrightarrow> fl s' = fl s"
proof (induction n arbitrary: s)
  case 0
  then show ?case by simp
next
  case (Suc n)
  show ?case
  proof (cases "running s")
    case False
    with Suc.prems(1) have "s' = s" by simp
    then show ?thesis by simp
  next
    case True
    from Suc.prems(1) True obtain IR a b t where f: "fetch s = Inr (IR, a, b)"
      and d: "dispatch IR a b s = Inr t" and it: "iterate n t = Inr s'"
      by (auto simp: cycle_def split: sum.splits prod.splits)
    from Suc.prems(2) True f d have "IR \<noteq> CMP" and "CMP \<notin> set (fetched n t)"
      by auto
    then show ?thesis using Suc.IH [OF it] dispatch_fl [OF d] by simp
  qed
qed

text \<open>
  C7. In a state whose flags are one of the values the machine ever holds, \<open>JEQ\<close> sets
  \<open>PC\<close> to the register named by its operand when the Equal bit is set and otherwise
  moves \<open>PC\<close> on by 2, and \<open>JNE\<close> sets \<open>PC\<close> to that register when the Equal bit is clear
  and otherwise moves \<open>PC\<close> on by 2 (a jump through a register index that is not accepted
  raises instead). And when the iteration before was a \<open>CMP\<close> of two registers holding
  \<open>x\<close> and \<open>y\<close>, a \<open>JEQ\<close> takes the jump if \<open>x = y\<close> and falls through if not.
\<close>

theorem equal_flag_decides_jump:
  "(flags_ok s \<and> fetch s = Inr (JEQ, a, b) \<longrightarrow>
      cycle s =
        (if E_set s then
           (case getitem (reg s) a of Inl e \<Rightarrow> Inl e | Inr v \<Rightarrow> Inr (s\<lparr>pc := v\<rparr>))
         else Inr (s\<lparr>pc := pc s + 2\<rparr>)))
   \<and> (flags_ok s \<and> fetch s = Inr (JNE, a, b) \<longrightarrow>
      cycle s =
        (if \<not> E_set s then
           (case getitem (reg s) a of Inl e \<Rightarrow> Inl e | Inr v \<Rightarrow> Inr (s\<lparr>pc := v\<rparr>))
         else Inr (s\<lparr>pc := pc s + 2\<rparr>)))
   \<and> (fetch s0 = Inr (CMP, ra, rb) \<and> getitem (reg s0) ra = Inr x
        \<and> getitem (reg s0) rb = Inr y \<and> cycle s0 = Inr s \<and> fetch s = Inr (JEQ, a, b) \<longrightarrow>
      cycle s =
        (if x = y then
           (case getitem (reg s) a of Inl e \<Rightarrow> Inl e | Inr v \<Rightarrow> Inr (s\<lparr>pc := v\<rparr>))
         else Inr (s\<lparr>pc := pc s + 2\<rparr>)))"
proof (intro conjI impI)
  assume "flags_ok s \<and> fetch s = Inr (JEQ, a, b)"
  then show "cycle s =
        (if E_set s then
           (case getitem (reg s) a of Inl e \<Rightarrow> Inl e | Inr v \<Rightarrow> Inr (s\<lparr>pc := v\<rparr>))
         else Inr (s\<lparr>pc := pc s + 2\<rparr>))"
    by (simp add: cycle_eq dispatch_JEQ E_set_iff)
next
  assume "flags_ok s \<and> fetch s = Inr (JNE, a, b)"
  then show "cycle s =
        (if \<not> E_set s then
           (case getitem (reg s) a of Inl e \<Rightarrow> Inl e | Inr v \<Rightarrow> Inr (s\<lparr>pc := v\<rparr>))
         else Inr (s\<lparr>pc := pc s + 2\<rparr>))"
    by (simp add: cycle_eq dispatch_JNE E_set_iff)
next
  assume h: "fetch s0 = Inr (CMP, ra, rb) \<and> getitem (reg s0) ra = Inr x
        \<and> getitem (reg s0) rb = Inr y \<and> cycle s0 = Inr s \<and> fetch s = Inr (JEQ, a, b)"
  then have f0: "fetch s0 = Inr (CMP, ra, rb)" and c: "cycle s0 = Inr s"
    and f: "fetch s = Inr (JEQ, a, b)"
    and xy: "getitem (reg s0) ra = Inr x" "getitem (reg s0) rb = Inr y"
    by simp_all
  have "dispatch CMP ra rb s0 = Inr s" using cycle_eq [OF f0] c by simp
  then have "s = s0\<lparr>fl := (if x = y then 1 else if x < y then 4 else 2), pc := pc s0 + 3\<rparr>"
    by (simp add: dispatch_CMP alu_CMP xy)
  then have "fl s = 1 \<longleftrightarrow> x = y" by simp
  then show "cycle s =
        (if x = y then
           (case getitem (reg s) a of Inl e \<Rightarrow> Inl e | Inr v \<Rightarrow> Inr (s\<lparr>pc := v\<rparr>))
         else Inr (s\<lparr>pc := pc s + 2\<rparr>))"
    using cycle_eq [OF f] by (simp add: dispatch_JEQ)
qed

theorem equal_flag_decides_jump_witness:
  "let R = [CMP, 0, 1, JEQ, 2, JNE, 2, 0] @ replicate 248 0;
       before = CPU\<lparr>ram := R, running := True\<rparr>;
       after = CPU\<lparr>ram := R, running := True, fl := 1, pc := 3\<rparr>;
       other = CPU\<lparr>ram := R, running := True, fl := 1, pc := 5\<rparr>
   in fetch before = Inr (CMP, 0, 1)
      \<and> getitem (reg before) 0 = Inr 0 \<and> getitem (reg before) 1 = Inr 0
      \<and> cycle before = Inr after
      \<and> flags_ok after \<and> fetch after = Inr (JEQ, 2, JNE)
      \<and> cycle after = Inr (after\<lparr>pc := 0\<rparr>)
      \<and> flags_ok other \<and> fetch other = Inr (JNE, 2, 0)
      \<and> cycle other = Inr (other\<lparr>pc := 7\<rparr>)"
proof -
  define R where "R = [CMP, 0, 1, JEQ, 2, JNE, 2, 0] @ replicate 248 0"
  let ?before = "CPU\<lparr>ram := R, running := True\<rparr>"
  let ?after = "CPU\<lparr>ram := R, running := True, fl := 1, pc := 3\<rparr>"
  let ?other = "CPU\<lparr>ram := R, running := True, fl := 1, pc := 5\<rparr>"
  have rd: "getitem R 0 = Inr CMP" "getitem R 1 = Inr 0" "getitem R 2 = Inr 1"
    "getitem R 3 = Inr JEQ" "getitem R 4 = Inr 2" "getitem R 5 = Inr JNE"
    "getitem R 6 = Inr 2" "getitem R 7 = Inr 0"
    by (simp_all add: getitem_cases R_def)
  have rg: "getitem (reg CPU) 0 = Inr 0" "getitem (reg CPU) 1 = Inr 0"
    "getitem (reg CPU) 2 = Inr 0"
    by (simp_all add: getitem_cases reg_CPU)
  have ok: "flags_ok ?after" "flags_ok ?other" by (simp_all add: flags_ok_def)
  have E: "E_set ?after" "E_set ?other" by (simp_all add: E_set_def)
  have f0: "fetch ?before = Inr (CMP, 0, 1)"
    by (simp add: fetch_def ram_read_def rd CPU_fields)
  have fs: "fetch ?after = Inr (JEQ, 2, JNE)"
    by (simp add: fetch_def ram_read_def rd)
  have ft: "fetch ?other = Inr (JNE, 2, 0)"
    by (simp add: fetch_def ram_read_def rd)
  have c0: "cycle ?before = Inr ?after"
    by (simp add: cycle_eq [OF f0] dispatch_CMP alu_CMP rg CPU_fields)
  have g0: "getitem (reg ?before) 0 = Inr 0" "getitem (reg ?before) 1 = Inr 0"
    by (simp_all add: rg)
  have 1: "cycle ?after = Inr (?after\<lparr>pc := 0\<rparr>)"
    using equal_flag_decides_jump [of ?after 2 JNE ?before 0 1 0 0] f0 g0 c0 fs
    by (simp add: rg)
  have 2: "cycle ?other = Inr (?other\<lparr>pc := 7\<rparr>)"
    using equal_flag_decides_jump [of ?other 2 0 ?before 0 1 0 0] ok ft E by simp
  show ?thesis
    unfolding Let_def R_def [symmetric] using ok f0 fs ft c0 g0 1 2 by simp
qed

text \<open>
  C10. Start from a freshly constructed and loaded machine and run any number of
  iterations, none of which fetches \<open>CMP\<close> (none at all gives the initial state). Then
  the flags are 0, a \<open>JNE\<close> fetched next takes the jump to the register named by its
  operand, and a \<open>JEQ\<close> fetched next falls through to \<open>PC + 2\<close>.
\<close>

theorem flags_zero_without_compare:
  "load vs CPU = Inr s0 \<and> iterate n (s0\<lparr>running := True\<rparr>) = Inr s
     \<and> CMP \<notin> set (fetched n (s0\<lparr>running := True\<rparr>)) \<longrightarrow>
   fl s = 0
   \<and> (fetch s = Inr (JNE, a, b) \<longrightarrow>
        cycle s = (case getitem (reg s) a of Inl e \<Rightarrow> Inl e | Inr v \<Rightarrow> Inr (s\<lparr>pc := v\<rparr>)))
   \<and> (fetch s = Inr (JEQ, a, b) \<longrightarrow> cycle s = Inr (s\<lparr>pc := pc s + 2\<rparr>))"
proof (intro impI)
  assume h: "load vs CPU = Inr s0 \<and> iterate n (s0\<lparr>running := True\<rparr>) = Inr s
     \<and> CMP \<notin> set (fetched n (s0\<lparr>running := True\<rparr>))"
  then have "fl s0 = 0" using load_from_fl [of 0 vs CPU s0] by (simp add: load_def CPU_fields)
  moreover have "fl s = fl (s0\<lparr>running := True\<rparr>)" using h iterate_fl by blast
  ultimately have z: "fl s = 0" by simp
  then show "fl s = 0
   \<and> (fetch s = Inr (JNE, a, b) \<longrightarrow>
        cycle s = (case getitem (reg s) a of Inl e \<Rightarrow> Inl e | Inr v \<Rightarrow> Inr (s\<lparr>pc := v\<rparr>)))
   \<and> (fetch s = Inr (JEQ, a, b) \<longrightarrow> cycle s = Inr (s\<lparr>pc := pc s + 2\<rparr>))"
    by (simp add: cycle_eq dispatch_JNE dispatch_JEQ)
qed

theorem flags_zero_without_compare_witness:
  "let P = [LDI, 0, 5, JNE, 0, JEQ, 0];
       R = P @ replicate 249 0;
       start = CPU\<lparr>ram := R, running := True\<rparr>;
       s = CPU\<lparr>ram := R, running := True, reg := [5, 0, 0, 0, 0, 0, 0, 0], pc := 3\<rparr>
   in load P CPU = Inr (CPU\<lparr>ram := R\<rparr>)
      \<and> iterate 1 start = Inr s \<and> CMP \<notin> set (fetched 1 start)
      \<and> fetch s = Inr (JNE, 0, JEQ) \<and> fl s = 0 \<and> cycle s = Inr (s\<lparr>pc := 5\<rparr>)"
proof -
  define P where "P = [LDI, 0, 5, JNE, 0, JEQ, 0]"
  define R where "R = P @ replicate 249 0"
  let ?init = "CPU\<lparr>ram := R\<rparr>"
  let ?start = "CPU\<lparr>ram := R, running := True\<rparr>"
  let ?t = "CPU\<lparr>ram := R, running := True, reg := [5, 0, 0, 0, 0, 0, 0, 0], pc := 3\<rparr>"
  have ld: "load P CPU = Inr ?init" by (simp add: load_CPU P_def R_def)
  have rd: "getitem R 0 = Inr LDI" "getitem R 1 = Inr 0" "getitem R 2 = Inr 5"
    "getitem R 3 = Inr JNE" "getitem R 4 = Inr 0" "getitem R 5 = Inr JEQ"
    by (simp_all add: getitem_cases P_def R_def)
  have fs: "fetch ?start = Inr (LDI, 0, 5)"
    by (simp add: fetch_def ram_read_def rd CPU_fields)
  have ft: "fetch ?t = Inr (JNE, 0, JEQ)"
    by (simp add: fetch_def ram_read_def rd)
  have d: "dispatch LDI 0 5 ?start = Inr ?t"
    by (simp add: dispatch_LDI setitem_cases reg_CPU CPU_fields)
  have it: "iterate 1 ?start = Inr ?t"
    by (simp add: cycle_eq [OF fs] d)
  have fe: "fetched 1 ?start = [LDI]"
    by (simp add: fs d)
  have no: "CMP \<notin> set (fetched 1 ?start)"
    unfolding fe by (simp add: opcode_defs)
  have 1: "fl ?t = 0 \<and> cycle ?t = Inr (?t\<lparr>pc := 5\<rparr>)"
    using flags_zero_without_compare [of P ?init 1 ?t 0 JEQ] ld it no ft
    by (simp add: getitem_cases)
  show ?thesis
    unfolding Let_def R_def [symmetric] P_def [symmetric] using ld it no ft 1 by simp
qed


subsection \<open>The stack\<close>

lemma dispatch_sp:
  assumes "dispatch IR a b s = Inr s'"
  shows "sp s' =
    (if IR = PUSH \<or> IR = CALL then sp s - 1
     else if IR = POP \<or> IR = RET then sp s + 1 else sp s)"
  using assms
  by (cases IR rule: opcode_cases)
    (auto simp: dispatch_def alu_def opcode_defs split: sum.splits if_splits)

lemma dispatch_lengths:
  assumes "dispatch IR a b s = Inr s'"
  shows "length (ram s') = length (ram s) \<and> length (reg s') = length (reg s)"
  using assms
  by (cases IR rule: opcode_cases)
    (auto simp: dispatch_def alu_def opcode_defs setitem_length split: sum.splits if_splits)

lemma dispatch_wf: "dispatch IR a b s = Inr s' \<Longrightarrow> wf s \<Longrightarrow> wf s'"
  using dispatch_lengths [of IR a b s s'] by (simp add: wf_def)

lemma cycle_dispatch:
  assumes "cycle s = Inr s'"
  obtains IR a b where "fetch s = Inr (IR, a, b)" and "dispatch IR a b s = Inr s'"
  using assms by (auto simp: cycle_def split: sum.splits prod.splits)

lemma iterate_Suc_running:
  assumes "iterate (Suc n) s = Inr s'" and "running s"
  obtains IR a b t where "fetch s = Inr (IR, a, b)" and "dispatch IR a b s = Inr t"
    and "cycle s = Inr t" and "iterate n t = Inr s'"
  using assms by (auto simp: cycle_def split: sum.splits prod.splits)

lemma iterate_sp:
  "iterate n s = Inr s' \<Longrightarrow>
   sp s' + int (length (filter (\<lambda>i. i = PUSH \<or> i = CALL) (fetched n s))) =
   sp s + int (length (filter (\<lambda>i. i = POP \<or> i = RET) (fetched n s)))"
proof (induction n arbitrary: s)
  case 0
  then show ?case by simp
next
  case (Suc n)
  show ?case
  proof (cases "running s")
    case False
    with Suc.prems have "s' = s" by simp
    then show ?thesis using False by simp
  next
    case True
    from Suc.prems True obtain IR a b t where f: "fetch s = Inr (IR, a, b)"
      and d: "dispatch IR a b s = Inr t" and it: "iterate n t = Inr s'"
      by (rule iterate_Suc_running)
    have fe: "fetched (Suc n) s = IR # fetched n t" using True f d by simp
    have ne: "PUSH \<noteq> POP" "PUSH \<noteq> RET" "CALL \<noteq> POP" "CALL \<noteq> RET"
      by (simp_all add: opcode_defs)
    show ?thesis
      unfolding fe using Suc.IH [OF it] dispatch_sp [OF d] ne by auto
  qed
qed

lemma push_pop_roundtrip:
  assumes "fetch s = Inr (PUSH, a, b)" and "getitem (reg s) a = Inr v" and "cycle s = Inr s1"
    and "fetch s1 = Inr (POP, c, d)" and "cycle s1 = Inr s2"
  shows "getitem (reg s2) c = Inr v \<and> sp s2 = sp s"
proof -
  from assms(1,3) have "dispatch PUSH a b s = Inr s1" by (simp add: cycle_def)
  with assms(2) obtain m where m: "setitem (ram s) (sp s - 1) v = Inr m"
    and s1: "s1 = s\<lparr>sp := sp s - 1, ram := m, pc := pc s + 2\<rparr>"
    by (auto simp: dispatch_PUSH split: sum.splits)
  have top: "getitem (ram s1) (sp s1) = Inr v"
    using m s1 by (simp add: getitem_setitem_same)
  from assms(4,5) have "dispatch POP c d s1 = Inr s2" by (simp add: cycle_def)
  with top obtain r where r: "setitem (reg s1) c v = Inr r"
    and s2: "s2 = s1\<lparr>reg := r, sp := sp s1 + 1, pc := pc s1 + 2\<rparr>"
    by (auto simp: dispatch_POP split: sum.splits)
  show ?thesis using r s1 s2 by (simp add: getitem_setitem_same)
qed

text \<open>
  C8. If an iteration fetches \<open>PUSH\<close> of a register holding \<open>v\<close> and the next one fetches
  \<open>POP\<close>, then the register popped into holds \<open>v\<close> and the stack pointer is what it was
  before the \<open>PUSH\<close> (the two registers may be the same or different). And from any
  state, whatever the stack pointer, iterations that complete and whose instruction
  bytes decrement the stack pointer as often as they increment it leave the stack
  pointer where it was.
\<close>

theorem push_pop_restores:
  "(fetch s = Inr (PUSH, a, b) \<and> getitem (reg s) a = Inr v \<and> cycle s = Inr s1
      \<and> fetch s1 = Inr (POP, c, d) \<and> cycle s1 = Inr s2 \<longrightarrow>
    getitem (reg s2) c = Inr v \<and> sp s2 = sp s)
   \<and> (iterate n t = Inr t' \<and> balanced (fetched n t) \<longrightarrow> sp t' = sp t)"
  using push_pop_roundtrip [of s a b v s1 c d s2] iterate_sp [of n t t']
  by (auto simp: balanced_def)

theorem push_pop_restores_witness:
  "let R = [PUSH, 0, POP, 1] @ replicate 252 0;
       s = CPU\<lparr>ram := R, reg := [7, 0, 0, 0, 0, 0, 0, 0], running := True\<rparr>;
       s1 = s\<lparr>sp := 243, ram := R[243 := 7], pc := 2\<rparr>;
       s2 = s1\<lparr>reg := [7, 7, 0, 0, 0, 0, 0, 0], sp := 244, pc := 4\<rparr>
   in fetch s = Inr (PUSH, 0, POP) \<and> getitem (reg s) 0 = Inr 7 \<and> cycle s = Inr s1
      \<and> fetch s1 = Inr (POP, 1, 0) \<and> cycle s1 = Inr s2
      \<and> iterate 2 s = Inr s2 \<and> balanced (fetched 2 s)
      \<and> getitem (reg s2) 1 = Inr 7 \<and> sp s2 = sp s"
proof -
  define R where "R = [PUSH, 0, POP, 1] @ replicate 252 0"
  let ?s = "CPU\<lparr>ram := R, reg := [7, 0, 0, 0, 0, 0, 0, 0], running := True\<rparr>"
  let ?s1 = "?s\<lparr>sp := 243, ram := R[243 := 7], pc := 2\<rparr>"
  let ?s2 = "?s1\<lparr>reg := [7, 7, 0, 0, 0, 0, 0, 0], sp := 244, pc := 4\<rparr>"
  have len: "length R = 256" by (simp add: R_def)
  have rd: "R ! 0 = PUSH" "R ! Suc 0 = 0" "R ! 2 = POP" "R ! 3 = 1" "R ! 4 = 0"
    by (simp_all add: R_def)
  have f: "fetch ?s = Inr (PUSH, 0, POP)"
    by (simp add: fetch_def ram_read_def getitem_cases len rd CPU_fields)
  have f1: "fetch ?s1 = Inr (POP, 1, 0)"
    by (simp add: fetch_def ram_read_def getitem_cases len rd)
  have g: "getitem (reg ?s) 0 = Inr 7" by (simp add: getitem_cases)
  have c: "cycle ?s = Inr ?s1"
    using cycle_eq [OF f] by (simp add: dispatch_PUSH getitem_cases setitem_cases len CPU_fields)
  have c1: "cycle ?s1 = Inr ?s2"
    using cycle_eq [OF f1] by (simp add: dispatch_POP getitem_cases setitem_cases len CPU_fields)
  have two: "(2::nat) = Suc (Suc 0)" by simp
  have it: "iterate 2 ?s = Inr ?s2"
    unfolding two using c c1 by simp
  have d: "dispatch PUSH 0 POP ?s = Inr ?s1" using c cycle_eq [OF f] by simp
  have d1: "dispatch POP 1 0 ?s1 = Inr ?s2" using c1 cycle_eq [OF f1] by simp
  have fe: "fetched 2 ?s = [PUSH, POP]"
    unfolding two using f f1 d d1 by simp
  have ba: "balanced (fetched 2 ?s)"
    unfolding fe by (simp add: balanced_def opcode_defs)
  have "getitem (reg ?s2) 1 = Inr 7 \<and> sp ?s2 = sp ?s"
    using push_pop_restores [of ?s 0 POP 7 ?s1 1 0 ?s2 2 ?s ?s2] f g c f1 c1 it ba
    by blast
  then show ?thesis
    unfolding Let_def R_def [symmetric] using f g c f1 c1 it ba by simp
qed

text \<open>A push below \<open>base\<close>, and less than a whole memory below, leaves the cell \<open>base\<close> alone.\<close>

lemma dispatch_keeps_cell:
  assumes "dispatch IR a b s = Inr s'" and "length (ram s) = 256"
    and "base - 254 \<le> sp s" and "sp s \<le> base"
  shows "getitem (ram s') base = getitem (ram s) base"
proof -
  have other: "getitem m base = getitem (ram s) base"
    if "setitem (ram s) (sp s - 1) v = Inr m" for v m
    using that assms(2-4) by (intro getitem_setitem_other [of "ram s" "sp s - 1" v m]) simp_all
  show ?thesis
    using assms(1)
    by (cases IR rule: opcode_cases)
      (auto simp: dispatch_simps dispatch_other alu_ADD alu_MUL alu_CMP other
        split: sum.splits if_splits)
qed

lemma iterate_keeps_cell:
  "iterate n s = Inr s' \<Longrightarrow> wf s \<Longrightarrow> nested n s base \<Longrightarrow>
   getitem (ram s') base = getitem (ram s) base \<and> wf s'"
proof (induction n arbitrary: s)
  case 0
  then show ?case by simp
next
  case (Suc n)
  show ?case
  proof (cases "running s")
    case False
    with Suc.prems(1) have "s' = s" by simp
    then show ?thesis using Suc.prems(2) by simp
  next
    case True
    from Suc.prems(1) True obtain IR a b t where f: "fetch s = Inr (IR, a, b)"
      and d: "dispatch IR a b s = Inr t" and c: "cycle s = Inr t"
      and it: "iterate n t = Inr s'"
      by (rule iterate_Suc_running)
    from Suc.prems(3) True c have bounds: "base - 254 \<le> sp s" "sp s \<le> base"
      and nt: "nested n t base"
      by simp_all
    have wt: "wf t" using d Suc.prems(2) by (rule dispatch_wf)
    have "getitem (ram t) base = getitem (ram s) base"
      using d Suc.prems(2) bounds by (intro dispatch_keeps_cell) (simp_all add: wf_def)
    then show ?thesis using Suc.IH [OF it wt nt] by simp
  qed
qed

lemma call_step:
  assumes "py_index (ram s) (sp s - 1) = Some k" and "py_index (reg s) a = Some j"
    and "fetch s = Inr (CALL, a, b)"
  shows "cycle s = Inr (s\<lparr>sp := sp s - 1, ram := (ram s)[k := pc s + 2], pc := reg s ! j\<rparr>)"
  using assms by (simp add: cycle_def dispatch_CALL getitem_def setitem_def)

lemma ret_step:
  assumes "py_index (ram s) (sp s) = Some k" and "fetch s = Inr (RET, c, d)"
  shows "cycle s = Inr (s\<lparr>pc := ram s ! k, sp := sp s + 1\<rparr>)"
  using assms by (simp add: cycle_def dispatch_RET getitem_def)

lemma call_body_ret:
  assumes "wf s" and "fetch s = Inr (CALL, a, b)" and "cycle s = Inr s1"
    and "iterate n s1 = Inr s2" and "nested n s1 (sp s1)" and "balanced (fetched n s1)"
    and "fetch s2 = Inr (RET, c, d)"
  shows "cycle s2 = Inr (s2\<lparr>pc := pc s + 2, sp := sp s\<rparr>)"
proof -
  from assms(2,3) have "dispatch CALL a b s = Inr s1" by (simp add: cycle_def)
  then obtain m v where m: "setitem (ram s) (sp s - 1) (pc s + 2) = Inr m"
    and s1: "s1 = s\<lparr>sp := sp s - 1, ram := m, pc := v\<rparr>"
    by (auto simp: dispatch_CALL split: sum.splits)
  have sp1: "sp s1 = sp s - 1" using s1 by simp
  have saved: "getitem (ram s1) (sp s1) = Inr (pc s + 2)"
    using m s1 by (simp add: getitem_setitem_same)
  have w1: "wf s1"
    using m s1 assms(1) by (simp add: wf_def setitem_length)
  have kept: "getitem (ram s2) (sp s1) = getitem (ram s1) (sp s1)"
    using iterate_keeps_cell [OF assms(4) w1 assms(5)] by simp
  have sp2: "sp s2 = sp s1"
    using iterate_sp [OF assms(4)] assms(6) by (simp add: balanced_def)
  have "getitem (ram s2) (sp s2) = Inr (pc s + 2)" using kept saved sp2 by simp
  then show ?thesis
    using assms(7) sp1 sp2 by (simp add: cycle_def dispatch_RET)
qed

text \<open>
  C9, amended. A \<open>CALL\<close> fetched at \<open>PC = p\<close>, with the cell below \<open>SP\<close> and the register
  index accepted, decrements \<open>SP\<close>, stores \<open>p + 2\<close> in the cell at the new \<open>SP\<close> and sets
  \<open>PC\<close> to the register. A \<open>RET\<close>, with the cell at \<open>SP\<close> accepted, sets \<open>PC\<close> to that cell
  and increments \<open>SP\<close>. And in a machine with its 256 cells, when the \<open>CALL\<close> is followed
  by \<open>n\<close> iterations that complete, are balanced and stay nested (each starts with \<open>SP\<close>
  at most at the saved cell and less than 255 below it), a \<open>RET\<close> fetched next completes
  and leaves \<open>PC = p + 2\<close> and \<open>SP\<close> as before the \<open>CALL\<close>.
\<close>

theorem call_ret_resumes:
  "(py_index (ram s) (sp s - 1) = Some k \<and> py_index (reg s) a = Some j
      \<and> fetch s = Inr (CALL, a, b) \<longrightarrow>
    cycle s = Inr (s\<lparr>sp := sp s - 1, ram := (ram s)[k := pc s + 2], pc := reg s ! j\<rparr>))
   \<and> (py_index (ram t) (sp t) = Some k' \<and> fetch t = Inr (RET, c, d) \<longrightarrow>
    cycle t = Inr (t\<lparr>pc := ram t ! k', sp := sp t + 1\<rparr>))
   \<and> (wf s \<and> fetch s = Inr (CALL, a, b) \<and> cycle s = Inr s1 \<and> iterate n s1 = Inr s2
      \<and> nested n s1 (sp s1) \<and> balanced (fetched n s1) \<and> fetch s2 = Inr (RET, c, d) \<longrightarrow>
    cycle s2 = Inr (s2\<lparr>pc := pc s + 2, sp := sp s\<rparr>))"
  using call_step [of s k a j b] ret_step [of t k' c d]
    call_body_ret [of s a b s1 n s2 c d]
  by blast

theorem call_ret_resumes_witness:
  "let R = [LDI, 0, 6, CALL, 0, HLT, PUSH, 0, POP, 1, RET] @ replicate 245 0;
       s = CPU\<lparr>ram := R, reg := [6, 0, 0, 0, 0, 0, 0, 0], pc := 3, running := True\<rparr>;
       s1 = s\<lparr>sp := 243, ram := R[243 := 5], pc := 6\<rparr>;
       s2 = s1\<lparr>sp := 243, ram := R[243 := 5, 242 := 6], pc := 10,
                reg := [6, 6, 0, 0, 0, 0, 0, 0]\<rparr>
   in wf s \<and> fetch s = Inr (CALL, 0, HLT)
      \<and> py_index (ram s) (sp s - 1) = Some 243 \<and> py_index (reg s) 0 = Some 0
      \<and> cycle s = Inr s1
      \<and> iterate 2 s1 = Inr s2 \<and> nested 2 s1 (sp s1) \<and> balanced (fetched 2 s1)
      \<and> fetch s2 = Inr (RET, 0, 0) \<and> py_index (ram s2) (sp s2) = Some 243
      \<and> cycle s2 = Inr (s2\<lparr>pc := 5, sp := 244\<rparr>)"
proof -
  define R where "R = [LDI, 0, 6, CALL, 0, HLT, PUSH, 0, POP, 1, RET] @ replicate 245 0"
  let ?s = "CPU\<lparr>ram := R, reg := [6, 0, 0, 0, 0, 0, 0, 0], pc := 3, running := True\<rparr>"
  let ?s1 = "?s\<lparr>sp := 243, ram := R[243 := 5], pc := 6\<rparr>"
  let ?t = "?s1\<lparr>sp := 242, ram := R[243 := 5, 242 := 6], pc := 8\<rparr>"
  let ?s2 = "?s1\<lparr>sp := 243, ram := R[243 := 5, 242 := 6], pc := 10,
                reg := [6, 6, 0, 0, 0, 0, 0, 0]\<rparr>"
  have len: "length R = 256" by (simp add: R_def)
  have rd: "R ! 3 = CALL" "R ! 4 = 0" "R ! 5 = HLT" "R ! 6 = PUSH" "R ! 7 = 0"
    "R ! 8 = POP" "R ! 9 = 1" "R ! 10 = RET" "R ! 11 = 0" "R ! 12 = 0"
    by (simp_all add: R_def)
  have w: "wf ?s" by (simp add: wf_def len)
  have f: "fetch ?s = Inr (CALL, 0, HLT)"
    by (simp add: fetch_def ram_read_def getitem_cases len rd)
  have f1: "fetch ?s1 = Inr (PUSH, 0, POP)"
    by (simp add: fetch_def ram_read_def getitem_cases len rd)
  have ft: "fetch ?t = Inr (POP, 1, RET)"
    by (simp add: fetch_def ram_read_def getitem_cases len rd)
  have f2: "fetch ?s2 = Inr (RET, 0, 0)"
    by (simp add: fetch_def ram_read_def getitem_cases len rd)
  have ix: "py_index (ram ?s) (sp ?s - 1) = Some 243" "py_index (reg ?s) 0 = Some 0"
    "py_index (ram ?s2) (sp ?s2) = Some 243"
    by (simp_all add: py_index_def len CPU_fields)
  have c: "cycle ?s = Inr ?s1"
    using call_ret_resumes [where s = ?s and k = 243 and a = 0 and j = 0 and b = HLT] ix f
    by (simp add: CPU_fields)
  have c1: "cycle ?s1 = Inr ?t"
    using cycle_eq [OF f1] by (simp add: dispatch_PUSH getitem_cases setitem_cases len)
  have ct: "cycle ?t = Inr ?s2"
    using cycle_eq [OF ft] by (simp add: dispatch_POP getitem_cases setitem_cases len)
  have two: "(2::nat) = Suc (Suc 0)" by simp
  have it: "iterate 2 ?s1 = Inr ?s2"
    unfolding two using c1 ct by simp
  have ne: "nested 2 ?s1 (sp ?s1)"
    unfolding two using c1 ct by simp
  have d1: "dispatch PUSH 0 POP ?s1 = Inr ?t" using c1 cycle_eq [OF f1] by simp
  have dt: "dispatch POP 1 RET ?t = Inr ?s2" using ct cycle_eq [OF ft] by simp
  have fe: "fetched 2 ?s1 = [PUSH, POP]"
    unfolding two using f1 ft d1 dt by simp
  have ba: "balanced (fetched 2 ?s1)"
    unfolding fe by (simp add: balanced_def opcode_defs)
  have "cycle ?s2 = Inr (?s2\<lparr>pc := pc ?s + 2, sp := sp ?s\<rparr>)"
    using call_ret_resumes [where s = ?s and a = 0 and b = HLT and ?s1.0 = ?s1 and n = 2
        and ?s2.0 = ?s2 and c = 0 and d = 0] w f c it ne ba f2
    by blast
  then have c2: "cycle ?s2 = Inr (?s2\<lparr>pc := 5, sp := 244\<rparr>)"
    by (simp add: CPU_fields)
  show ?thesis
    unfolding Let_def R_def [symmetric] using w f ix c it ne ba f2 c2 by simp
qed

text \<open>
  C9, as stated, fails: balanced stack operations between the \<open>CALL\<close> and the \<open>RET\<close> are
  not enough. In the program below the \<open>CALL\<close> is at address 6 and the subroutine at 9 is
  \<open>POP R1; PUSH R2; RET\<close>, one pop and one push: the pop takes the return address 8 off
  the stack, the push puts the 9 of \<open>R2\<close> in its place, and the \<open>RET\<close> resumes at 9, not at
  8, with \<open>SP\<close> back at 244.
\<close>

theorem unnested_subroutine_returns_elsewhere:
  "load [LDI, 0, 9, LDI, 2, 9, CALL, 0, HLT, POP, 1, PUSH, 2, RET] CPU
     = Inr (CPU\<lparr>ram := [LDI, 0, 9, LDI, 2, 9, CALL, 0, HLT, POP, 1, PUSH, 2, RET]
                        @ replicate 242 0\<rparr>)
   \<and> (case iterate 2
          (CPU\<lparr>ram := [LDI, 0, 9, LDI, 2, 9, CALL, 0, HLT, POP, 1, PUSH, 2, RET]
                        @ replicate 242 0, running := True\<rparr>) of
        Inl e \<Rightarrow> None | Inr s \<Rightarrow> Some (fetch s, pc s, sp s))
       = Some (Inr (CALL, 0, HLT), 6, 244)
   \<and> fetched 6
        (CPU\<lparr>ram := [LDI, 0, 9, LDI, 2, 9, CALL, 0, HLT, POP, 1, PUSH, 2, RET]
                      @ replicate 242 0, running := True\<rparr>)
       = [LDI, LDI, CALL, POP, PUSH, RET]
   \<and> balanced [POP, PUSH]
   \<and> (case iterate 6
          (CPU\<lparr>ram := [LDI, 0, 9, LDI, 2, 9, CALL, 0, HLT, POP, 1, PUSH, 2, RET]
                        @ replicate 242 0, running := True\<rparr>) of
        Inl e \<Rightarrow> None | Inr s \<Rightarrow> Some (pc s, sp s))
       = Some (9, 244)"
proof -
  define P where "P = [LDI, 0, 9, LDI, 2, 9, CALL, 0, HLT, POP, 1, PUSH, 2, RET]"
  define R where "R = P @ replicate 242 0"
  let ?a = "CPU\<lparr>ram := R, running := True\<rparr>"
  let ?b = "?a\<lparr>reg := [9, 0, 0, 0, 0, 0, 0, 0], pc := 3\<rparr>"
  let ?c = "?a\<lparr>reg := [9, 0, 9, 0, 0, 0, 0, 0], pc := 6\<rparr>"
  let ?d = "?c\<lparr>sp := 243, ram := R[243 := 8], pc := 9\<rparr>"
  let ?e = "?d\<lparr>reg := [9, 8, 9, 0, 0, 0, 0, 0], sp := 244, pc := 11\<rparr>"
  let ?f = "?e\<lparr>sp := 243, ram := R[243 := 9], pc := 13\<rparr>"
  let ?g = "?f\<lparr>pc := 9, sp := 244\<rparr>"
  have ld: "load P CPU = Inr (CPU\<lparr>ram := R\<rparr>)" by (simp add: load_CPU P_def R_def)
  have len: "length R = 256" by (simp add: R_def P_def)
  have rd: "R ! 0 = LDI" "R ! Suc 0 = 0" "R ! 2 = 9" "R ! 3 = LDI" "R ! 4 = 2" "R ! 5 = 9"
    "R ! 6 = CALL" "R ! 7 = 0" "R ! 8 = HLT" "R ! 9 = POP" "R ! 10 = 1" "R ! 11 = PUSH"
    "R ! 12 = 2" "R ! 13 = RET" "R ! 14 = 0" "R ! 15 = 0"
    by (simp_all add: R_def P_def)
  have fa: "fetch ?a = Inr (LDI, 0, 9)"
    by (simp add: fetch_def ram_read_def getitem_cases len rd CPU_fields)
  have fb: "fetch ?b = Inr (LDI, 2, 9)"
    by (simp add: fetch_def ram_read_def getitem_cases len rd)
  have fc: "fetch ?c = Inr (CALL, 0, HLT)"
    by (simp add: fetch_def ram_read_def getitem_cases len rd)
  have fd: "fetch ?d = Inr (POP, 1, PUSH)"
    by (simp add: fetch_def ram_read_def getitem_cases len rd)
  have fe: "fetch ?e = Inr (PUSH, 2, RET)"
    by (simp add: fetch_def ram_read_def getitem_cases len rd)
  have ff: "fetch ?f = Inr (RET, 0, 0)"
    by (simp add: fetch_def ram_read_def getitem_cases len rd)
  have da: "dispatch LDI 0 9 ?a = Inr ?b"
    by (simp add: dispatch_LDI setitem_cases reg_CPU CPU_fields)
  have db: "dispatch LDI 2 9 ?b = Inr ?c"
    by (simp add: dispatch_LDI setitem_cases)
  have dc: "dispatch CALL 0 HLT ?c = Inr ?d"
    by (simp add: dispatch_CALL getitem_cases setitem_cases len CPU_fields)
  have dd: "dispatch POP 1 PUSH ?d = Inr ?e"
    by (simp add: dispatch_POP getitem_cases setitem_cases len)
  have de: "dispatch PUSH 2 RET ?e = Inr ?f"
    by (simp add: dispatch_PUSH getitem_cases setitem_cases len)
  have df: "dispatch RET 0 0 ?f = Inr ?g"
    by (simp add: dispatch_RET getitem_cases len)
  have two: "(2::nat) = Suc (Suc 0)" by simp
  have six: "(6::nat) = Suc (Suc (Suc (Suc (Suc (Suc 0)))))" by simp
  have i2: "iterate 2 ?a = Inr ?c"
    unfolding two using fa fb da db by (simp add: cycle_def)
  have i6: "iterate 6 ?a = Inr ?g"
    unfolding six using fa fb fc fd fe ff da db dc dd de df by (simp add: cycle_def)
  have tr: "fetched 6 ?a = [LDI, LDI, CALL, POP, PUSH, RET]"
    unfolding six using fa fb fc fd fe ff da db dc dd de df by simp
  have ba: "balanced [POP, PUSH]" by (simp add: balanced_def opcode_defs)
  have 1: "(case iterate 2 ?a of Inl e \<Rightarrow> None | Inr s \<Rightarrow> Some (fetch s, pc s, sp s))
      = Some (Inr (CALL, 0, HLT), 6, 244)"
    using fc by (simp add: i2 CPU_fields)
  have 2: "(case iterate 6 ?a of Inl e \<Rightarrow> None | Inr s \<Rightarrow> Some (pc s, sp s)) = Some (9, 244)"
    by (simp add: i6)
  show ?thesis
    unfolding R_def [symmetric] P_def [symmetric] using ld 1 tr ba 2 by simp
qed

subsection \<open>The states of an execution\<close>

lemma load_from_keeps:
  "load_from a vs s = Inr s' \<Longrightarrow>
   length (ram s') = length (ram s) \<and> reg s' = reg s \<and> fl s' = fl s \<and> sp s' = sp s
   \<and> pc s' = pc s"
  by (induction vs arbitrary: a s) (auto split: sum.splits dest: setitem_length)

lemma loaded_ok:
  assumes "load vs CPU = Inr s"
  shows "wf s \<and> flags_ok s"
  using load_from_keeps [of 0 vs CPU s] assms
  by (simp add: load_def wf_def flags_ok_def CPU_def)

lemma iterate_ok:
  "iterate n s = Inr s' \<Longrightarrow> wf s \<Longrightarrow> flags_ok s \<Longrightarrow> wf s' \<and> flags_ok s'"
proof (induction n arbitrary: s)
  case 0
  then show ?case by simp
next
  case (Suc n)
  show ?case
  proof (cases "running s")
    case False
    with Suc.prems(1) have "s' = s" by simp
    then show ?thesis using Suc.prems by simp
  next
    case True
    from Suc.prems(1) True obtain IR a b t where d: "dispatch IR a b s = Inr t"
      and it: "iterate n t = Inr s'"
      by (rule iterate_Suc_running)
    show ?thesis
      using Suc.IH [OF it] dispatch_wf [OF d] dispatch_flags_ok [OF d] Suc.prems(2,3)
      by simp
  qed
qed

text \<open>Every state of an execution has its 256 cells, its 8 registers and flags 0, 1, 2 or 4.\<close>

lemma execution_state_ok:
  assumes "load vs CPU = Inr s0" and "iterate n (s0\<lparr>running := True\<rparr>) = Inr s"
  shows "wf s \<and> flags_ok s"
proof -
  have "wf (s0\<lparr>running := True\<rparr>)" "flags_ok (s0\<lparr>running := True\<rparr>)"
    using loaded_ok [OF assms(1)] by (simp_all add: wf_def flags_ok_def)
  then show ?thesis using iterate_ok [OF assms(2)] by simp
qed

text \<open>The loop returns exactly the state in which one of its iterations cleared \<open>running\<close>.\<close>

lemma loop_iterate:
  "loop n s = Some (Inr s') \<Longrightarrow> iterate n s = Inr s' \<and> \<not> running s'"
proof (induction n arbitrary: s)
  case 0
  then show ?case by (simp split: if_splits)
next
  case (Suc n)
  then show ?case by (auto split: if_splits sum.splits)
qed


end
